theory Spec2Isabelle
  imports Main "HOL-Library.Sublist"
begin

section \<open>Python values, dictionaries and strings\<close>

text \<open>
  The values that \<^verbatim>\<open>dysql/query_utils.py\<close> tells apart: \<^verbatim>\<open>None\<close>, booleans, integers,
  strings, lists and tuples. The module asks of a value only whether it is truthy
  (\<^verbatim>\<open>not values\<close>), whether it is a \<^verbatim>\<open>str\<close>, a \<^verbatim>\<open>tuple\<close>, a \<^verbatim>\<open>list\<close> or
  \<^verbatim>\<open>tuple\<close>, and what its elements are when it is iterated. Strings are lists of
  8-bit characters.
\<close>

datatype pyval =
    PNone
  | PBool bool
  | PInt int
  | PStr string
  | PList "pyval list"
  | PTuple "pyval list"

datatype error =
    ListTemplateException string
  | QueryDataError string
  | TypeError string
  | ValueError string

text \<open>Python truthiness, \<^verbatim>\<open>bool(v)\<close>.\<close>

fun truthy :: "pyval \<Rightarrow> bool" where
  "truthy PNone = False"
| "truthy (PBool b) = b"
| "truthy (PInt i) = (i \<noteq> 0)"
| "truthy (PStr s) = (s \<noteq> [])"
| "truthy (PList xs) = (xs \<noteq> [])"
| "truthy (PTuple xs) = (xs \<noteq> [])"

fun is_str :: "pyval \<Rightarrow> bool" where
  "is_str (PStr s) = True"
| "is_str v = False"

fun is_tuple :: "pyval \<Rightarrow> bool" where
  "is_tuple (PTuple xs) = True"
| "is_tuple v = False"

fun is_list_or_tuple :: "pyval \<Rightarrow> bool" where
  "is_list_or_tuple (PList xs) = True"
| "is_list_or_tuple (PTuple xs) = True"
| "is_list_or_tuple v = False"

text \<open>
  Iteration (\<^verbatim>\<open>enumerate(values)\<close>): the elements of a list or tuple, the one-character
  strings of a string; any other value is not iterable and Python raises \<^verbatim>\<open>TypeError\<close>
  (\<open>None\<close> here).
\<close>

fun py_iter :: "pyval \<Rightarrow> pyval list option" where
  "py_iter (PList xs) = Some xs"
| "py_iter (PTuple xs) = Some xs"
| "py_iter (PStr s) = Some (map (\<lambda>c. PStr [c]) s)"
| "py_iter v = None"

text \<open>\<^verbatim>\<open>len(v)\<close>; \<open>None\<close> where Python raises \<^verbatim>\<open>TypeError\<close>.\<close>

fun py_len :: "pyval \<Rightarrow> nat option" where
  "py_len (PList xs) = Some (length xs)"
| "py_len (PTuple xs) = Some (length xs)"
| "py_len (PStr s) = Some (length s)"
| "py_len v = None"

text \<open>
  A \<^verbatim>\<open>dict\<close> with string keys is an association list with distinct keys in insertion
  order. \<open>dict_set\<close> is \<^verbatim>\<open>d[k] = v\<close>: an existing key keeps its place and takes the
  new value, a new key goes to the end. \<open>dict_update\<close> is \<^verbatim>\<open>d.update(e)\<close>.
\<close>

type_synonym pydict = "(string \<times> pyval) list"

fun dict_set :: "('k \<times> 'v) list \<Rightarrow> 'k \<Rightarrow> 'v \<Rightarrow> ('k \<times> 'v) list" where
  "dict_set [] k v = [(k, v)]"
| "dict_set ((k', v') # d) k v =
     (if k' = k then (k', v) # d else (k', v') # dict_set d k v)"

fun dict_update :: "('k \<times> 'v) list \<Rightarrow> ('k \<times> 'v) list \<Rightarrow> ('k \<times> 'v) list" where
  "dict_update d [] = d"
| "dict_update d ((k, v) # e) = dict_update (dict_set d k v) e"

definition dict_get :: "pydict \<Rightarrow> string \<Rightarrow> pyval option" where
  "dict_get d k = map_of d k"

text \<open>\<^verbatim>\<open>str(index)\<close> for a non-negative index: its decimal digits.\<close>

definition digit_char :: "nat \<Rightarrow> char" where
  "digit_char n = ''0123456789'' ! n"

fun str_of_nat :: "nat \<Rightarrow> string" where
  "str_of_nat n =
     (if n < 10 then [digit_char n]
      else str_of_nat (n div 10) @ [digit_char (n mod 10)])"

declare str_of_nat.simps [simp del]

text \<open>
  \<^verbatim>\<open>s.replace(old, new)\<close>: every occurrence of \<open>old\<close>, found from the left and
  not overlapping, becomes \<open>new\<close>. With an empty \<open>old\<close> Python puts \<open>new\<close> before
  every character and at the end.
\<close>

fun str_replace :: "string \<Rightarrow> string \<Rightarrow> string \<Rightarrow> string" where
  "str_replace old new s =
     (if old = [] then new @ concat (map (\<lambda>c. c # new) s)
      else if s = [] then []
      else if prefix old s then new @ str_replace old new (drop (length old) s)
      else hd s # str_replace old new (tl s))"

declare str_replace.simps [simp del]

text \<open>\<^verbatim>\<open>sep.join(xs)\<close>.\<close>

fun py_join :: "string \<Rightarrow> string list \<Rightarrow> string" where
  "py_join sep [] = []"
| "py_join sep [x] = x"
| "py_join sep (x # y # xs) = x @ sep @ py_join sep (y # xs)"

text \<open>
  \<^verbatim>\<open>s.split(sep)\<close> for a non-empty separator: the pieces between the occurrences of
  \<open>sep\<close>, found from the left and not overlapping. \<open>cur\<close> is the piece being read.
\<close>

fun split_from :: "string \<Rightarrow> string \<Rightarrow> string \<Rightarrow> string list" where
  "split_from sep cur s =
     (if s = [] then [cur]
      else if sep \<noteq> [] \<and> prefix sep s then cur # split_from sep [] (drop (length sep) s)
      else split_from sep (cur @ [hd s]) (tl s))"

declare split_from.simps [simp del]

definition py_split :: "string \<Rightarrow> string \<Rightarrow> string list" where
  "py_split sep s = split_from sep [] s"

text \<open>
  \<^verbatim>\<open>s.strip()\<close>: the ASCII whitespace characters Python strips are the space, the codes
  9 to 13 and the codes 28 to 31.
\<close>

definition is_ws :: "char \<Rightarrow> bool" where
  "is_ws c = (c \<in> set [CHR '' '', CHR 0x09, CHR 0x0A, CHR 0x0B, CHR 0x0C, CHR 0x0D,
                        CHR 0x1C, CHR 0x1D, CHR 0x1E, CHR 0x1F])"

definition py_strip :: "string \<Rightarrow> string" where
  "py_strip s = rev (dropWhile is_ws (rev (dropWhile is_ws s)))"

text \<open>
  \<^verbatim>\<open>str(keys)\<close> for a list of strings, as \<^verbatim>\<open>'{}'.format(missing_keys)\<close> prints it:
  each string in single quotes (the keys hold letters, underscores and dots only, so
  nothing is escaped), separated by a comma and a space, in square brackets.
\<close>

definition py_repr_list :: "string list \<Rightarrow> string" where
  "py_repr_list xs = ''['' @ py_join '', '' (map (\<lambda>x. [CHR 0x27] @ x @ [CHR 0x27]) xs) @ '']''"

text \<open>Substring test, \<^verbatim>\<open>sub in s\<close>.\<close>

fun contains :: "string \<Rightarrow> string \<Rightarrow> bool" where
  "contains sub [] = (sub = [])"
| "contains sub (c # s) = (prefix sub (c # s) \<or> contains sub s)"

section \<open>The placeholder grammar\<close>

text \<open>
  \<^verbatim>\<open>LIST_TEMPLATE_REGEX = (( +)?{(in|not_in|values)__([A-Za-z_]+\.)?([A-Za-z_]+)}( +)?)\<close>

  \<^verbatim>\<open>re.findall\<close> returns, for each match, the tuple of the six groups, an empty string
  for a group that took no part: \<open>g0\<close> the whole match, \<open>g1\<close> the spaces before,
  \<open>g2\<close> the keyword, \<open>g3\<close> the table name with its dot, \<open>g4\<close> the column name,
  \<open>g5\<close> the spaces after.

  The matcher below reads the expression from left to right. Python's engine backtracks,
  but no backtracking changes the outcome for this expression: a shorter run of spaces
  is followed by a space and not by the brace; the three keywords start with different
  letters; a shorter run of \<^verbatim>\<open>[A-Za-z_]\<close> is followed by a character of that class,
  never by the dot or the closing brace the expression asks for next; and when the
  longest run is followed by a dot, skipping the optional table group leaves the column
  run followed by that dot, not by the closing brace.
\<close>

record groups =
  g0 :: string
  g1 :: string
  g2 :: string
  g3 :: string
  g4 :: string
  g5 :: string

definition ident_char :: "char \<Rightarrow> bool" where
  "ident_char c = (c \<in> set (''ABCDEFGHIJKLMNOPQRSTUVWXYZ'' @ ''abcdefghijklmnopqrstuvwxyz''
                              @ ''_''))"

definition is_space :: "char \<Rightarrow> bool" where
  "is_space c = (c = CHR '' '')"

text \<open>\<^verbatim>\<open>(in|not_in|values)__\<close>: the keyword and what follows the two underscores.\<close>

definition match_keyword :: "string \<Rightarrow> (string \<times> string) option" where
  "match_keyword s =
     (if prefix ''in__'' s then Some (''in'', drop 4 s)
      else if prefix ''not_in__'' s then Some (''not_in'', drop 8 s)
      else if prefix ''values__'' s then Some (''values'', drop 8 s)
      else None)"

text \<open>
  \<^verbatim>\<open>([A-Za-z_]+\.)?([A-Za-z_]+)}\<close>: table group, column group and what follows the
  closing brace.
\<close>

definition match_names :: "string \<Rightarrow> (string \<times> string \<times> string) option" where
  "match_names s =
     (let r1 = takeWhile ident_char s; s1 = dropWhile ident_char s in
      if r1 = [] then None
      else case s1 of
        [] \<Rightarrow> None
      | c # s2 \<Rightarrow>
          if c = CHR ''}'' then Some ([], r1, s2)
          else if c = CHR ''.'' then
            (let r2 = takeWhile ident_char s2; s3 = dropWhile ident_char s2 in
             if r2 = [] then None
             else case s3 of
               [] \<Rightarrow> None
             | d # s4 \<Rightarrow> if d = CHR ''}'' then Some (r1 @ ''.'', r2, s4) else None)
          else None)"

text \<open>A match of the whole expression at the start of \<open>s\<close>: the groups and the rest.\<close>

definition match_here :: "string \<Rightarrow> (groups \<times> string) option" where
  "match_here s =
     (let lead = takeWhile is_space s; s1 = dropWhile is_space s in
      case s1 of
        [] \<Rightarrow> None
      | c # s2 \<Rightarrow>
          if c \<noteq> CHR ''{'' then None
          else case match_keyword s2 of
            None \<Rightarrow> None
          | Some (kw, s3) \<Rightarrow>
              (case match_names s3 of
                 None \<Rightarrow> None
               | Some (tbl, col, s4) \<Rightarrow>
                   (let trail = takeWhile is_space s4; s5 = dropWhile is_space s4 in
                    Some (\<lparr>g0 = lead @ ''{'' @ kw @ ''__'' @ tbl @ col @ ''}'' @ trail,
                            g1 = lead, g2 = kw, g3 = tbl, g4 = col, g5 = trail\<rparr>, s5))))"

lemma match_keyword_length:
  "match_keyword s = Some (kw, r) \<Longrightarrow> length r < length s"
  by (auto simp: match_keyword_def prefix_def split: if_splits)

lemma match_names_length:
  "match_names s = Some (t, c, r) \<Longrightarrow> length r < length s"
proof -
  assume a: "match_names s = Some (t, c, r)"
  then obtain x s2 where s1: "dropWhile ident_char s = x # s2"
    and alt: "r = s2 \<or> (\<exists>y. dropWhile ident_char s2 = y # r)"
    by (auto simp: match_names_def Let_def split: if_splits list.splits)
  have "length (dropWhile ident_char s) \<le> length s"
    by (rule length_dropWhile_le)
  with s1 have l3: "length s2 < length s" by simp
  have l2: "length (dropWhile ident_char s2) \<le> length s2"
    by (rule length_dropWhile_le)
  from alt show ?thesis
  proof
    assume "r = s2"
    with l3 show ?thesis by simp
  next
    assume "\<exists>y. dropWhile ident_char s2 = y # r"
    then obtain y where "dropWhile ident_char s2 = y # r" ..
    with l2 have "length r < length s2" by simp
    with l3 show ?thesis by simp
  qed
qed

lemma match_here_length:
  "match_here s = Some (g, r) \<Longrightarrow> length r < length s"
proof -
  assume a: "match_here s = Some (g, r)"
  have l1: "length (dropWhile is_space s) \<le> length s"
    by (rule length_dropWhile_le)
  from a obtain c s2 kw s3 tbl col s4 where
    s1: "dropWhile is_space s = c # s2" and
    kw: "match_keyword s2 = Some (kw, s3)" and
    nm: "match_names s3 = Some (tbl, col, s4)" and
    r: "r = dropWhile is_space s4"
    by (auto simp: match_here_def Let_def split: list.splits if_splits option.splits)
  have "length r \<le> length s4" unfolding r by (rule length_dropWhile_le)
  moreover have "length s4 < length s3" using nm by (rule match_names_length)
  moreover have "length s3 < length s2" using kw by (rule match_keyword_length)
  moreover have "length s2 < length s" using l1 s1 by simp
  ultimately show ?thesis by linarith
qed

text \<open>
  \<^verbatim>\<open>re.findall(LIST_TEMPLATE_REGEX, query)\<close>: the matches from left to right, each
  search starting where the match before it ended, one character further where there is
  no match.
\<close>

function findall :: "string \<Rightarrow> groups list" where
  "findall s =
     (if s = [] then []
      else case match_here s of
        Some (g, r) \<Rightarrow> g # findall r
      | None \<Rightarrow> findall (tl s))"
  by pat_completeness auto
termination
  by (relation "measure length") (auto dest: match_here_length)

declare findall.simps [simp del]

section \<open>The templates\<close>

text \<open>
  \<^verbatim>\<open>Templates._parameterize_inner_list(key, values)\<close>. The loop over
  \<^verbatim>\<open>enumerate(values)\<close> carries \<^verbatim>\<open>parameterized_keys\<close> and \<^verbatim>\<open>param_values\<close>.
  A value that is neither a list nor a tuple is bound to \<open>key\<close> as it is: no dot is
  replaced on that path.
\<close>

fun inner_loop ::
  "string \<Rightarrow> (nat \<times> pyval) list \<Rightarrow> string list \<times> pydict \<Rightarrow> string list \<times> pydict" where
  "inner_loop key [] (parameterized_keys, param_values) = (parameterized_keys, param_values)"
| "inner_loop key ((index, val) # rest) (parameterized_keys, param_values) =
     (let parameterized_key = str_replace ''.'' ''_'' key @ ''_'' @ str_of_nat index
      in inner_loop key rest
           (parameterized_keys @ [parameterized_key],
            dict_set param_values parameterized_key val))"

definition inner_keys_values :: "string \<Rightarrow> pyval \<Rightarrow> string list \<times> pydict" where
  "inner_keys_values key values =
     (if \<not> is_list_or_tuple values then ([key], dict_set [] key values)
      else inner_loop key (enumerate 0 (the (py_iter values))) ([], []))"

definition parameterize_inner_list :: "string \<Rightarrow> pyval \<Rightarrow> string \<times> pydict" where
  "parameterize_inner_list key values =
     (case inner_keys_values key values of
        (parameterized_keys, param_values) \<Rightarrow>
          (''( :'' @ py_join '', :'' parameterized_keys @ '' )'', param_values))"

text \<open>
  \<^verbatim>\<open>Templates._parameterize_list(key, values)\<close>. Only a \<^verbatim>\<open>str\<close> is wrapped into a
  one-element tuple; \<^verbatim>\<open>enumerate\<close> of any other value that is not iterable raises
  \<^verbatim>\<open>TypeError\<close>. The loop returns from its first element that is no tuple under a key
  that does not start with \<^verbatim>\<open>values\<close>, with the flat expansion of all the values.
\<close>

fun parameterize_list_loop ::
  "string \<Rightarrow> pyval \<Rightarrow> (nat \<times> pyval) list \<Rightarrow> string list \<times> pydict \<Rightarrow> string \<times> pydict" where
  "parameterize_list_loop key values [] (param_inner_keys, param_values) =
     (py_join '', '' param_inner_keys, param_values)"
| "parameterize_list_loop key values ((index, val) # rest) (param_inner_keys, param_values) =
     (if is_tuple val \<or> prefix ''values'' key then
        (case parameterize_inner_list (key @ ''_'' @ str_of_nat index) val of
           (param_string, inner_param_values) \<Rightarrow>
             parameterize_list_loop key values rest
               (param_inner_keys @ [param_string],
                dict_update param_values inner_param_values))
      else parameterize_inner_list key values)"

definition parameterize_list :: "string \<Rightarrow> pyval \<Rightarrow> error + (string \<times> pydict)" where
  "parameterize_list key values0 =
     (let values = (if is_str values0 then PTuple [values0] else values0) in
      case py_iter values of
        None \<Rightarrow> Inl (TypeError ''object is not iterable'')
      | Some xs \<Rightarrow> Inr (parameterize_list_loop key values (enumerate 0 xs) ([], [])))"

text \<open>
  The three handlers. \<open>legacy_key\<close> is \<^verbatim>\<open>None\<close> by default; \<^verbatim>\<open>if legacy_key\<close> holds for
  a non-empty string. A handler returns the fragment and the bindings, \<^verbatim>\<open>None\<close> for the
  bindings of the two sentinel fragments.
\<close>

definition key_name_of :: "string \<Rightarrow> string option \<Rightarrow> string" where
  "key_name_of name legacy_key =
     (case legacy_key of None \<Rightarrow> name | Some k \<Rightarrow> if k \<noteq> [] then k else name)"

definition in_column ::
  "string \<Rightarrow> pyval \<Rightarrow> string option \<Rightarrow> error + (string \<times> pydict option)" where
  "in_column name values legacy_key =
     (if \<not> truthy values then Inr (''1 <> 1'', None)
      else case parameterize_list (key_name_of name legacy_key) values of
        Inl e \<Rightarrow> Inl e
      | Inr (keys, vals) \<Rightarrow> Inr (name @ '' IN '' @ keys, Some vals))"

definition not_in_column ::
  "string \<Rightarrow> pyval \<Rightarrow> string option \<Rightarrow> error + (string \<times> pydict option)" where
  "not_in_column name values legacy_key =
     (if \<not> truthy values then Inr (''1 = 1'', None)
      else case parameterize_list (key_name_of name legacy_key) values of
        Inl e \<Rightarrow> Inl e
      | Inr (keys, vals) \<Rightarrow> Inr (name @ '' NOT IN '' @ keys, Some vals))"

definition values_template ::
  "string \<Rightarrow> pyval \<Rightarrow> string option \<Rightarrow> error + (string \<times> pydict option)" where
  "values_template name values legacy_key =
     (if \<not> truthy values
      then Inl (ListTemplateException (''Must have values for '' @ name @ '' template''))
      else case parameterize_list (key_name_of name legacy_key) values of
        Inl e \<Rightarrow> Inl e
      | Inr (keys, vals) \<Rightarrow> Inr (''VALUES '' @ keys, Some vals))"

text \<open>\<^verbatim>\<open>Templates.get_template(name)\<close>: the handler of a keyword, \<^verbatim>\<open>None\<close> for any other name.\<close>

datatype template = In_column | Not_in_column | Values_template

definition get_template :: "string \<Rightarrow> template option" where
  "get_template name =
     (if name = ''in'' then Some In_column
      else if name = ''not_in'' then Some Not_in_column
      else if name = ''values'' then Some Values_template
      else None)"

fun call_template ::
  "template \<Rightarrow> string \<Rightarrow> pyval \<Rightarrow> string option \<Rightarrow> error + (string \<times> pydict option)" where
  "call_template In_column name values legacy_key = in_column name values legacy_key"
| "call_template Not_in_column name values legacy_key = not_in_column name values legacy_key"
| "call_template Values_template name values legacy_key = values_template name values legacy_key"

section \<open>The query assembler\<close>

record QueryData =
  query :: string
  query_params :: "pydict option"
  template_params :: "pydict option"

text \<open>
  \<^verbatim>\<open>__validate_keys_clean_query(query, template_params)\<close>. The matches are found once,
  in the query as it was passed; the loop over them carries the query being cleaned and
  \<^verbatim>\<open>validated_keys\<close>. \<^verbatim>\<open>missing_keys\<close> is set to the empty list in every round, and
  the \<^verbatim>\<open>raise\<close> is inside the loop. \<open>check_key\<close> is the \<^verbatim>\<open>if\<close>/\<^verbatim>\<open>elif\<close> of one
  round and gives the \<^verbatim>\<open>missing_keys\<close> of that round; the \<^verbatim>\<open>elif\<close> compares the whole
  key with the word \<^verbatim>\<open>values\<close>.
\<close>

definition make_key :: "groups \<Rightarrow> string" where
  "make_key g = g2 g @ ''__'' @ (if g3 g \<noteq> [] then g3 g else []) @ g4 g"

definition check_key :: "pydict option \<Rightarrow> string \<Rightarrow> error + string list" where
  "check_key tparams key =
     (let missing_keys = [] in
      case tparams of
        None \<Rightarrow> Inr (missing_keys @ [key])
      | Some tp \<Rightarrow>
          (case dict_get tp key of
             None \<Rightarrow> Inr (missing_keys @ [key])
           | Some PNone \<Rightarrow> Inr (missing_keys @ [key])
           | Some v \<Rightarrow>
               if key = ''values'' then
                 (case py_len v of
                    None \<Rightarrow> Inl (TypeError ''object has no len()'')
                  | Some n \<Rightarrow> Inr (if n = 0 then missing_keys @ [key] else missing_keys))
               else Inr missing_keys))"

fun validate_loop ::
  "pydict option \<Rightarrow> groups list \<Rightarrow> string \<times> string list \<Rightarrow> error + (string \<times> string list)" where
  "validate_loop tparams [] (qry, validated_keys) = Inr (qry, validated_keys)"
| "validate_loop tparams (g # gs) (qry, validated_keys) =
     (let key = make_key g in
      case check_key tparams key of
        Inl e \<Rightarrow> Inl e
      | Inr missing_keys \<Rightarrow>
          if length missing_keys > 0
          then Inl (ListTemplateException (''Missing template keys '' @ py_repr_list missing_keys))
          else validate_loop tparams gs
                 (str_replace (g0 g) (py_strip (g0 g)) qry, validated_keys @ [key]))"

definition validate_keys_clean_query ::
  "string \<Rightarrow> pydict option \<Rightarrow> error + (string \<times> string list)" where
  "validate_keys_clean_query qry tparams =
     validate_loop tparams (findall qry) (qry, [])"

text \<open>
  The loop of \<^verbatim>\<open>get_query_data\<close> over \<^verbatim>\<open>validated_keys\<close>, carrying \<^verbatim>\<open>query\<close> and
  \<^verbatim>\<open>params\<close>. Unpacking \<^verbatim>\<open>key.split('__')\<close> into two names raises \<^verbatim>\<open>ValueError\<close>
  when there are not exactly two pieces.
\<close>

definition dict_truthy :: "pydict option \<Rightarrow> bool" where
  "dict_truthy d = (case d of None \<Rightarrow> False | Some e \<Rightarrow> e \<noteq> [])"

fun template_loop ::
  "pydict option \<Rightarrow> string list \<Rightarrow> string \<times> pydict \<Rightarrow> error + (string \<times> pydict)" where
  "template_loop tparams [] (qry, params) = Inr (qry, params)"
| "template_loop tparams (key # keys) (qry, params) =
     (case py_split ''__'' key of
        [list_template_key, column_name] \<Rightarrow>
          (case tparams of
             None \<Rightarrow> Inl (TypeError ''NoneType object is not subscriptable'')
           | Some tp \<Rightarrow>
               (case dict_get tp key of
                  None \<Rightarrow> Inl (ValueError (''KeyError: '' @ key))
                | Some v \<Rightarrow>
                    (case get_template list_template_key of
                       None \<Rightarrow> Inl (TypeError ''NoneType object is not callable'')
                     | Some template_to_use \<Rightarrow>
                         (case call_template template_to_use column_name v (Some key) of
                            Inl e \<Rightarrow> Inl e
                          | Inr (template_query, param_dict) \<Rightarrow>
                              template_loop tparams keys
                                (str_replace (''{'' @ key @ ''}'') ('' '' @ template_query @ '' '')
                                   qry,
                                 if dict_truthy param_dict
                                 then dict_update params (the param_dict) else params)))))
      | _ \<Rightarrow> Inl (ValueError ''wrong number of values to unpack (expected 2)''))"

text \<open>
  \<^verbatim>\<open>get_query_data(data)\<close>. The argument is a \<^verbatim>\<open>QueryData\<close> or some other object, for
  which \<^verbatim>\<open>__validate_query_and_params\<close> raises \<^verbatim>\<open>QueryDataError\<close>.
\<close>

datatype arg = Data QueryData | Other pyval

definition get_query_data :: "arg \<Rightarrow> error + (string \<times> pydict)" where
  "get_query_data a =
     (case a of
        Other v \<Rightarrow>
          Inl (QueryDataError
            ''SQL annotated methods must return an instance of QueryData for query information'')
      | Data data \<Rightarrow>
          (case validate_keys_clean_query (query data) (template_params data) of
             Inl e \<Rightarrow> Inl e
           | Inr (query1, validated_keys) \<Rightarrow>
               template_loop (template_params data) validated_keys
                 (query1,
                  if dict_truthy (query_params data)
                  then dict_update [] (the (query_params data)) else [])))"

section \<open>One round of the assembler loop\<close>

text \<open>
  What one round of the loop of \<^verbatim>\<open>get_query_data\<close> computes from the key and
  \<^verbatim>\<open>template_params\<close> alone, before it touches \<^verbatim>\<open>query\<close> and \<^verbatim>\<open>params\<close>: the
  rendered fragment and the bindings of the handler, or the error of the round.
  \<open>merge_params\<close> is \<^verbatim>\<open>if param_dict: params.update(param_dict)\<close>. The lemma
  \<open>template_loop_Cons\<close> shows that the loop is these two and the replacement.
\<close>

definition template_step :: "pydict option \<Rightarrow> string \<Rightarrow> error + (string \<times> pydict option)" where
  "template_step tparams key =
     (case py_split ''__'' key of
        [list_template_key, column_name] \<Rightarrow>
          (case tparams of
             None \<Rightarrow> Inl (TypeError ''NoneType object is not subscriptable'')
           | Some tp \<Rightarrow>
               (case dict_get tp key of
                  None \<Rightarrow> Inl (ValueError (''KeyError: '' @ key))
                | Some v \<Rightarrow>
                    (case get_template list_template_key of
                       None \<Rightarrow> Inl (TypeError ''NoneType object is not callable'')
                     | Some template_to_use \<Rightarrow>
                         call_template template_to_use column_name v (Some key))))
      | _ \<Rightarrow> Inl (ValueError ''wrong number of values to unpack (expected 2)''))"

definition merge_params :: "pydict \<Rightarrow> pydict option \<Rightarrow> pydict" where
  "merge_params params param_dict =
     (if dict_truthy param_dict then dict_update params (the param_dict) else params)"

text \<open>
  The name of the one binding that \<^verbatim>\<open>_parameterize_list\<close> makes for a string: under a
  key that starts with \<^verbatim>\<open>values\<close> the string is bound as it is to the sub-key of
  index 0; under any other key it is element 0 of the flat expansion, where the dots of
  the key are replaced.
\<close>

definition string_binding_name :: "string \<Rightarrow> string" where
  "string_binding_name key =
     (if prefix ''values'' key then key @ ''_0'' else str_replace ''.'' ''_'' key @ ''_0'')"

section \<open>The bindings, position by position\<close>

text \<open>
  The definitions of this section are not functions of the source. They list what its
  loops write, so that the theorems can speak of every position (placeholder key and
  element index) on its own; the lemmas \<open>inner_keys_values_bindings\<close>,
  \<open>parameterize_list_bindings\<close>, \<open>template_step_bindings\<close> and
  \<open>template_loop_bindings\<close> show that the functions of the source return exactly
  these lists, merged by \<open>dict_update\<close>.
\<close>

text \<open>The decimal digits, their values, and the number a digit string denotes.\<close>

definition is_digit :: "char \<Rightarrow> bool" where
  "is_digit c = (c \<in> set ''0123456789'')"

definition digit_val :: "char \<Rightarrow> nat" where
  "digit_val c = length (takeWhile (\<lambda>d. d \<noteq> c) ''0123456789'')"

definition digits_val :: "string \<Rightarrow> nat" where
  "digits_val s = foldl (\<lambda>a c. 10 * a + digit_val c) 0 s"

text \<open>\<^verbatim>\<open>key.replace('.', '_')\<close>, character by character (lemma \<open>str_replace_dot\<close>).\<close>

definition canon :: "string \<Rightarrow> string" where
  "canon s = map (\<lambda>c. if c = CHR ''.'' then CHR ''_'' else c) s"

text \<open>
  The pairs of name and value that \<^verbatim>\<open>_parameterize_inner_list(key, values)\<close> writes
  into \<^verbatim>\<open>param_values\<close>, one for each position, in the order of the writes.
\<close>

definition inner_bindings :: "string \<Rightarrow> pyval \<Rightarrow> (string \<times> pyval) list" where
  "inner_bindings key values =
     (if \<not> is_list_or_tuple values then [(key, values)]
      else map (\<lambda>(index, val). (str_replace ''.'' ''_'' key @ ''_'' @ str_of_nat index, val))
             (enumerate 0 (the (py_iter values))))"

text \<open>
  The test of the loop of \<^verbatim>\<open>_parameterize_list\<close> on one element, the pairs written for
  the element of index \<open>i\<close> when the test holds, and the pairs that
  \<^verbatim>\<open>_parameterize_list(key, values)\<close> returns: the pairs of all the elements when the test
  holds for each of them, the flat expansion of the whole value otherwise.
\<close>

definition tuple_path :: "string \<Rightarrow> pyval \<Rightarrow> bool" where
  "tuple_path key val = (is_tuple val \<or> prefix ''values'' key)"

definition element_bindings :: "string \<Rightarrow> nat \<times> pyval \<Rightarrow> (string \<times> pyval) list" where
  "element_bindings key iv = inner_bindings (key @ ''_'' @ str_of_nat (fst iv)) (snd iv)"

definition list_bindings :: "string \<Rightarrow> pyval \<Rightarrow> (string \<times> pyval) list" where
  "list_bindings key values0 =
     (let values = (if is_str values0 then PTuple [values0] else values0) in
      case py_iter values of
        None \<Rightarrow> []
      | Some xs \<Rightarrow>
          if list_all (tuple_path key) xs
          then concat (map (element_bindings key) (enumerate 0 xs))
          else inner_bindings key values)"

text \<open>
  A name carries the index \<open>i\<close> under \<open>key\<close>: with its dots replaced it is the key
  with its dots replaced, an underscore, the digits of \<open>i\<close>, and nothing more or
  something that does not start with a digit.
\<close>

definition tagged :: "string \<Rightarrow> nat \<Rightarrow> string \<Rightarrow> bool" where
  "tagged key i nm =
     (\<exists>sfx. canon nm = canon key @ ''_'' @ str_of_nat i @ sfx \<and> (sfx = [] \<or> \<not> is_digit (hd sfx)))"

text \<open>The characters of a key that the placeholder grammar matches: letters, underscores, dots.\<close>

definition key_ok :: "string \<Rightarrow> bool" where
  "key_ok k = list_all (\<lambda>c. ident_char c \<or> c = CHR ''.'') k"

text \<open>
  The pairs that the handler of a placeholder key returns in one round of the loop of
  \<^verbatim>\<open>get_query_data\<close>: those of \<^verbatim>\<open>_parameterize_list\<close> under the whole key (the
  assembler passes it as \<^verbatim>\<open>legacy_key\<close>) for a truthy value, none otherwise.
\<close>

definition key_bindings :: "pydict option \<Rightarrow> string \<Rightarrow> (string \<times> pyval) list" where
  "key_bindings tparams key =
     (case tparams of
        None \<Rightarrow> []
      | Some tp \<Rightarrow>
          (case dict_get tp key of
             None \<Rightarrow> []
           | Some v \<Rightarrow> if truthy v then list_bindings key v else []))"

text \<open>
  The keys of the placeholders of a query, in the order of the text and as often as
  they occur, and the pairs of name and value of all the positions of a query: those of
  each placeholder key, every key taken once.
\<close>

definition placeholder_keys :: "string \<Rightarrow> string list" where
  "placeholder_keys q = map make_key (findall q)"

definition all_bindings :: "QueryData \<Rightarrow> (string \<times> pyval) list" where
  "all_bindings d =
     concat (map (key_bindings (template_params d)) (remdups (placeholder_keys (query d))))"

section \<open>Substitution of all the tokens at once\<close>






section \<open>The combining row mapper\<close>

text \<open>
  The mapper (\<^verbatim>\<open>RecordCombiningMapper\<close> and the record model \<^verbatim>\<open>DbMapResultModel\<close> of
  \<^verbatim>\<open>dysql/mappers.py\<close> and \<^verbatim>\<open>dysql/pydantic_mappers.py\<close>) is not among the source
  files; only its tests are (\<^verbatim>\<open>dysql/test/test_pydantic_mappers.py\<close>). Every definition
  of this section is modelled from sections 3 and 4.4 of the specification, with the
  shape of the schema taken from the models of the tests. A raw row is a mapping from
  column names to values. Type coercion belongs to an external collaborator: it is a
  parameter, a partial function from the field name and a token of a CSV column to a
  value, and the whole mapping call fails (\<open>None\<close>) when it rejects a token.
\<close>

type_synonym row = pydict

type_synonym coercion = "string \<Rightarrow> string \<Rightarrow> pyval option"

text \<open>
  Modelled from the spec: the record schema of section 3 (the class-level sets and
  mappings of \<^verbatim>\<open>DbMapResultModel\<close>, which is missing): the identity fields, the scalar
  fields, the list, set and CSV-list fields (each read from the column of its own name),
  and the dict directives as the tests write them: \<^verbatim>\<open>_dict_key_fields\<close> maps the column
  of the key to the dict field, \<^verbatim>\<open>_dict_value_mappings\<close> the dict field to the column of
  the value.
\<close>

record schema =
  identity_fields :: "string list"
  scalar_fields :: "string list"
  list_fields :: "string list"
  set_fields :: "string list"
  csv_list_fields :: "string list"
  dict_key_fields :: "(string \<times> string) list"
  dict_value_mappings :: "(string \<times> string) list"

text \<open>
  Modelled from the spec: the folded record of section 3 (the instance of
  \<^verbatim>\<open>DbMapResultModel\<close>, which is missing): its scalar fields and its accumulated list,
  CSV-list, set and dict fields. A set is a list without duplicates, in the order of
  insertion.
\<close>

record folded =
  scalars :: pydict
  lists :: "(string \<times> pyval list) list"
  csv_lists :: "(string \<times> pyval list) list"
  sets :: "(string \<times> pyval list) list"
  dicts :: "(string \<times> (pyval \<times> pyval) list) list"

text \<open>
  Modelled from the spec: the identity of a raw row, the values of the schema's identity
  fields (the grouping key of \<^verbatim>\<open>RecordCombiningMapper\<close>, which is missing).
\<close>

definition identity :: "schema \<Rightarrow> row \<Rightarrow> pyval option list" where
  "identity sch r = map (dict_get r) (identity_fields sch)"

text \<open>
  Modelled from the spec: step 1 of the fold (section 4.4; \<^verbatim>\<open>DbMapResultModel\<close> is
  missing): on the first row of a partition the scalar fields are taken from the
  matching columns of the row and every directive field starts as its empty container.
\<close>

definition init_record :: "schema \<Rightarrow> row \<Rightarrow> folded" where
  "init_record sch r =
     \<lparr>scalars = filter (\<lambda>(f, v). f \<in> set (scalar_fields sch)) r,
      lists = map (\<lambda>f. (f, [])) (list_fields sch),
      csv_lists = map (\<lambda>f. (f, [])) (csv_list_fields sch),
      sets = map (\<lambda>f. (f, [])) (set_fields sch),
      dicts = map (\<lambda>(kc, f). (f, [])) (dict_key_fields sch)\<rparr>"

text \<open>
  Modelled from the spec: what one row gives to a list or set field (its raw value for
  the column of the field; nothing when the row has no such column, as the rows of the
  tests that lack a column show) and to a CSV-list field (the string of the column split
  on commas, each token coerced; \<^verbatim>\<open>DbMapResultModel\<close> is missing).
\<close>

definition list_elements :: "row \<Rightarrow> string \<Rightarrow> pyval list" where
  "list_elements r f = (case dict_get r f of None \<Rightarrow> [] | Some v \<Rightarrow> [v])"

definition csv_elements :: "coercion \<Rightarrow> row \<Rightarrow> string \<Rightarrow> pyval list option" where
  "csv_elements coerce r f =
     (case dict_get r f of
        None \<Rightarrow> Some []
      | Some (PStr s) \<Rightarrow> those (map (coerce f) (py_split '','' s))
      | Some v \<Rightarrow> None)"

text \<open>
  Modelled from the spec: insertion into a set field (duplicates collapse) and the entry
  that one row writes into a dict field, \<^verbatim>\<open>dict[key] = value\<close> with the key and the
  value read from the columns of the directive (\<^verbatim>\<open>DbMapResultModel\<close> is missing).
\<close>

definition set_insert :: "pyval list \<Rightarrow> pyval \<Rightarrow> pyval list" where
  "set_insert xs v = (if v \<in> set xs then xs else xs @ [v])"

definition dict_entry ::
  "schema \<Rightarrow> row \<Rightarrow> string \<Rightarrow> (pyval \<times> pyval) list \<Rightarrow> (pyval \<times> pyval) list" where
  "dict_entry sch r f kvs =
     foldl (\<lambda>acc (kc, g).
        if g \<noteq> f then acc
        else case dict_get r kc of
          None \<Rightarrow> acc
        | Some k \<Rightarrow>
            (case map_of (dict_value_mappings sch) f of
               None \<Rightarrow> acc
             | Some vc \<Rightarrow> dict_set acc k (case dict_get r vc of None \<Rightarrow> PNone | Some v \<Rightarrow> v)))
       kvs (dict_key_fields sch)"

text \<open>
  Modelled from the spec: step 2 of the fold for one row (section 4.4;
  \<^verbatim>\<open>DbMapResultModel.map_record\<close> is missing): every CSV-list field takes the coerced
  tokens of the row after those it has, every list field the raw value, every set field
  inserts it, every dict field sets its entry. A token that the coercion rejects fails
  the fold.
\<close>

definition fold_row :: "coercion \<Rightarrow> schema \<Rightarrow> folded \<Rightarrow> row \<Rightarrow> folded option" where
  "fold_row coerce sch rec r =
     (case those (map (\<lambda>(f, xs). map_option (\<lambda>ys. (f, xs @ ys)) (csv_elements coerce r f))
                   (csv_lists rec)) of
        None \<Rightarrow> None
      | Some csvs \<Rightarrow>
          Some (rec\<lparr>csv_lists := csvs,
                    lists := map (\<lambda>(f, xs). (f, xs @ list_elements r f)) (lists rec),
                    sets := map (\<lambda>(f, xs). (f, foldl set_insert xs (list_elements r f))) (sets rec),
                    dicts := map (\<lambda>(f, kvs). (f, dict_entry sch r f kvs)) (dicts rec)\<rparr>))"

text \<open>
  Modelled from the spec: the fold of a partition (section 4.4; the mapper is missing):
  the record is built on the first row and every row of the partition, the first one
  too, is folded into it in order. No record comes from an empty partition.
\<close>

fun fold_from :: "coercion \<Rightarrow> schema \<Rightarrow> folded \<Rightarrow> row list \<Rightarrow> folded option" where
  "fold_from coerce sch rec [] = Some rec"
| "fold_from coerce sch rec (r # rs) =
     (case fold_row coerce sch rec r of None \<Rightarrow> None | Some rec' \<Rightarrow> fold_from coerce sch rec' rs)"

definition fold_partition :: "coercion \<Rightarrow> schema \<Rightarrow> row list \<Rightarrow> folded option" where
  "fold_partition coerce sch part =
     (case part of [] \<Rightarrow> None | r # rs \<Rightarrow> fold_from coerce sch (init_record sch r) (r # rs))"

text \<open>
  Modelled from the spec: the combining variant as the state machine of section 4.4
  describes it (\<^verbatim>\<open>RecordCombiningMapper.map_records\<close> is missing). The rows are read
  once, in order; the state holds the records under their identities, in the order in
  which the identities were first seen. A row of a new identity starts a record, a row
  of a known identity is folded into the record of that identity. The call returns the
  records in the order of the state, and fails as a whole when one fold fails.
\<close>

definition step ::
  "coercion \<Rightarrow> schema \<Rightarrow> (pyval option list \<times> folded) list \<Rightarrow> row
     \<Rightarrow> (pyval option list \<times> folded) list option" where
  "step coerce sch st r =
     (let i = identity sch r in
      case map_of st i of
        None \<Rightarrow> map_option (\<lambda>rec. st @ [(i, rec)]) (fold_row coerce sch (init_record sch r) r)
      | Some rec \<Rightarrow> map_option (\<lambda>rec'. dict_set st i rec') (fold_row coerce sch rec r))"

fun fold_rows ::
  "coercion \<Rightarrow> schema \<Rightarrow> (pyval option list \<times> folded) list \<Rightarrow> row list
     \<Rightarrow> (pyval option list \<times> folded) list option" where
  "fold_rows coerce sch st [] = Some st"
| "fold_rows coerce sch st (r # rs) =
     (case step coerce sch st r of None \<Rightarrow> None | Some st' \<Rightarrow> fold_rows coerce sch st' rs)"

definition map_records :: "coercion \<Rightarrow> schema \<Rightarrow> row list \<Rightarrow> folded list option" where
  "map_records coerce sch rows = map_option (map snd) (fold_rows coerce sch [] rows)"

text \<open>
  The words of the claim, to compare the mapper with: the elements of a list in the order
  in which they are first seen, each once; the partitions of the rows by identity, in
  the order in which the identities are first seen, each with its rows in their order;
  the partitions with their identities and folds.
\<close>

fun first_seen :: "'a list \<Rightarrow> 'a list" where
  "first_seen [] = []"
| "first_seen (x # xs) = x # filter (\<lambda>y. y \<noteq> x) (first_seen xs)"

definition partitions :: "schema \<Rightarrow> row list \<Rightarrow> row list list" where
  "partitions sch rows =
     map (\<lambda>i. filter (\<lambda>r. identity sch r = i) rows) (first_seen (map (identity sch) rows))"

definition keyed_partitions ::
  "coercion \<Rightarrow> schema \<Rightarrow> row list \<Rightarrow> (pyval option list \<times> folded) list option" where
  "keyed_partitions coerce sch rows =
     those (map (\<lambda>i. map_option (Pair i)
                        (fold_partition coerce sch (filter (\<lambda>r. identity sch r = i) rows)))
                (first_seen (map (identity sch) rows)))"

text \<open>
  A CSV-list field after the rows \<open>rows\<close>: the same field, with the coerced tokens of
  the rows after what it held.
\<close>

definition csv_grows ::
  "coercion \<Rightarrow> row list \<Rightarrow> string \<times> pyval list \<Rightarrow> string \<times> pyval list \<Rightarrow> bool" where
  "csv_grows c rows old new =
     (fst new = fst old \<and>
      map_option (\<lambda>yss. snd old @ concat yss) (those (map (\<lambda>r. csv_elements c r (fst old)) rows))
        = Some (snd new))"

section \<open>The assembler on a store\<close>

text \<open>
  The functions of \<^verbatim>\<open>query_utils.py\<close> once more, now with the objects that Python can
  mutate kept in a store: a list of objects, the address of an object being its index.
  A dict, a list, and the \<^verbatim>\<open>QueryData\<close> object itself live in the store; a variable
  or a dict entry holds an immutable value or the address of a list (\<open>sval\<close>). Strings
  and tuples are immutable, and a list inside a tuple or a list is taken as a value. Every
  statement of the source that creates an object (\<^verbatim>\<open>{}\<close>, \<^verbatim>\<open>[]\<close>) is an \<open>alloc\<close>
  here, at the end of the store; every statement that changes an object
  (\<^verbatim>\<open>d[k] = v\<close>, \<^verbatim>\<open>d.update(e)\<close>, \<^verbatim>\<open>l.append(x)\<close>) writes at the address of that
  object; reading the attributes of \<^verbatim>\<open>data\<close> reads the store at the time of the read.
  Each function takes the store and returns its result with the new store, also when it
  raises. The functions have the names of the functions of the sections above, with the
  prefix \<open>st_\<close>; a reference takes the place of a dict or list that the source builds.
\<close>

datatype sval = Imm pyval | ListRef nat

datatype hobj =
    ODict "(string \<times> sval) list"
  | OList "pyval list"
  | OStrs "string list"
  | OQueryData string "nat option" "nat option"

type_synonym store = "hobj list"


definition dict_at :: "store \<Rightarrow> nat \<Rightarrow> (string \<times> sval) list" where
  "dict_at h a = (if a < length h then (case h ! a of ODict d \<Rightarrow> d | _ \<Rightarrow> []) else [])"

definition list_at :: "store \<Rightarrow> nat \<Rightarrow> pyval list" where
  "list_at h a = (if a < length h then (case h ! a of OList xs \<Rightarrow> xs | _ \<Rightarrow> []) else [])"

definition strs_at :: "store \<Rightarrow> nat \<Rightarrow> string list" where
  "strs_at h a = (if a < length h then (case h ! a of OStrs xs \<Rightarrow> xs | _ \<Rightarrow> []) else [])"



definition st_append :: "nat \<Rightarrow> string \<Rightarrow> store \<Rightarrow> store" where
  "st_append a s h = h[a := OStrs (strs_at h a @ [s])]"

























text \<open>
  The store \<open>h'\<close> keeps the first \<open>n\<close> objects of \<open>h\<close> as they are and is not shorter.
\<close>

definition frame :: "nat \<Rightarrow> store \<Rightarrow> store \<Rightarrow> bool" where
  "frame n h h' = (take n h' = take n h \<and> length h \<le> length h')"

text \<open>
  What a store holds, read as the values of the sections above: a reference to a list
  is the list it refers to (\<open>absv\<close>), a dict of the store is the dict of the values of
  its entries (\<open>absd\<close>), and the \<^verbatim>\<open>QueryData\<close> at an address is the record of its query
  and of the two dicts it refers to (\<open>abs_data\<close>). \<open>imm\<close> is a dict of values as a dict
  of the store.
\<close>

definition imm :: "pydict \<Rightarrow> (string \<times> sval) list" where
  "imm d = map (\<lambda>(k, v). (k, Imm v)) d"








section \<open>Example inputs\<close>

definition two_missing_keys :: QueryData where
  "two_missing_keys =
     \<lparr>query = ''SELECT * FROM t WHERE a {in__a} AND b {in__b}'',
      query_params = None, template_params = None\<rparr>"

definition in_x_example :: QueryData where
  "in_x_example =
     \<lparr>query = ''SELECT * FROM t WHERE x {in__x}'', query_params = None,
      template_params = Some [(''in__x'', PList [PInt 1, PInt 2])]\<rparr>"

definition empty_values_example :: QueryData where
  "empty_values_example =
     \<lparr>query = ''INSERT INTO t {values__v}'', query_params = None,
      template_params = Some [(''values__v'', PList [])]\<rparr>"

definition shared_name_example :: QueryData where
  "shared_name_example =
     \<lparr>query = ''SELECT * FROM t WHERE x {in__x}'',
      query_params = Some [(''in__x_0'', PInt 99), (''y'', PInt 7)],
      template_params = Some [(''in__x'', PList [PInt 1, PInt 2])]\<rparr>"

definition dot_collision_example :: QueryData where
  "dot_collision_example =
     \<lparr>query = ''SELECT * FROM a WHERE {in__a.b} AND {in__a_b}'', query_params = None,
      template_params = Some [(''in__a.b'', PList [PInt 1]), (''in__a_b'', PList [PInt 2])]\<rparr>"

definition two_keys_example :: QueryData where
  "two_keys_example =
     \<lparr>query = ''INSERT INTO t {values__t.rows} WHERE a {in__t.a}'', query_params = None,
      template_params =
        Some [(''values__t.rows'', PList [PTuple [PInt 1, PStr ''x''], PTuple [PInt 2, PStr ''y'']]),
              (''in__t.a'', PList [PInt 3, PInt 4])]\<rparr>"



text \<open>
  The models and rows of \<^verbatim>\<open>test_complex_object_record_combining\<close> and
  \<^verbatim>\<open>test_csv_list_field_multiple_records_duplicates\<close>, with a coercion for them: the
  elements of \<^verbatim>\<open>list2\<close> are integers written in decimal digits, all others are strings.
\<close>

definition example_coerce :: coercion where
  "example_coerce f tok =
     (if f = ''list2''
      then (if tok \<noteq> [] \<and> list_all is_digit tok then Some (PInt (int (digits_val tok))) else None)
      else Some (PStr tok))"

definition combining_schema :: schema where
  "combining_schema = \<lparr>identity_fields = [''id''], scalar_fields = [''id''],
     list_fields = [''list1''], set_fields = [''set1''], csv_list_fields = [],
     dict_key_fields = [(''key1'', ''dict1''), (''key2'', ''dict2'')],
     dict_value_mappings = [(''dict1'', ''val1''), (''dict2'', ''val2'')]\<rparr>"

definition combining_rows :: "row list" where
  "combining_rows =
    [[(''id'', PInt 1), (''list1'', PStr ''val1''), (''set1'', PStr ''val2''), (''key1'', PStr ''k1''),
      (''val1'', PStr ''v1''), (''key2'', PStr ''k3''), (''val2'', PInt 3)],
     [(''id'', PInt 2), (''list1'', PStr ''val1'')],
     [(''id'', PInt 1), (''list1'', PStr ''val3''), (''set1'', PStr ''val4''), (''key1'', PStr ''k2''),
      (''val1'', PStr ''v2''), (''key2'', PStr ''k4''), (''val2'', PInt 4)]]"

definition csv_schema :: schema where
  "csv_schema = \<lparr>identity_fields = [''id''], scalar_fields = [''id''],
     list_fields = [], set_fields = [], csv_list_fields = [''list1'', ''list2''],
     dict_key_fields = [], dict_value_mappings = []\<rparr>"

definition csv_duplicate_rows :: "row list" where
  "csv_duplicate_rows =
    [[(''id'', PInt 1), (''list1'', PStr ''a,b,c,d''), (''list2'', PStr ''1,2,3,4'')],
     [(''id'', PInt 1), (''list1'', PStr ''a,b,c,d''), (''list2'', PStr ''1,2,3,4'')]]"


section \<open>Dictionaries and the loop of the assembler\<close>

lemma template_loop_Cons:
  "template_loop tparams (key # keys) (qry, params) =
     (case template_step tparams key of
        Inl e \<Rightarrow> Inl e
      | Inr (template_query, param_dict) \<Rightarrow>
          template_loop tparams keys
            (str_replace (''{'' @ key @ ''}'') ('' '' @ template_query @ '' '') qry,
             merge_params params param_dict))"
  by (simp add: template_step_def merge_params_def
      split: list.splits option.splits sum.splits prod.splits)

declare template_loop.simps(2) [simp del]

lemma map_of_dict_set: "map_of (dict_set d k v) = (map_of d)(k \<mapsto> v)"
  by (induction d) (auto simp: fun_eq_iff)

lemma map_of_dict_update: "map_of (dict_update d e) = map_of d ++ map_of (rev e)"
proof (induction e arbitrary: d)
  case Nil
  then show ?case by simp
next
  case (Cons x e)
  obtain k v where x: "x = (k, v)" by (cases x)
  have "map_of (dict_update d (x # e)) = map_of (dict_set d k v) ++ map_of (rev e)"
    using Cons.IH x by simp
  also have "\<dots> = map_of d ++ map_of (rev (x # e))"
    by (simp add: map_of_dict_set x fun_eq_iff map_add_def split: option.splits)
  finally show ?case .
qed

lemma map_of_rev_distinct: "distinct (map fst xs) \<Longrightarrow> map_of (rev xs) = map_of xs"
proof (induction xs)
  case Nil
  then show ?case by simp
next
  case (Cons x xs)
  obtain k v where x: "x = (k, v)" by (cases x)
  from Cons.prems x have nk: "k \<notin> fst ` set xs" and d: "distinct (map fst xs)" by auto
  from nk have none: "map_of xs k = None" by (simp add: map_of_eq_None_iff)
  have "map_of (rev (x # xs)) = map_of [(k, v)] ++ map_of (rev xs)"
    by (simp add: x)
  also have "\<dots> = map_of [(k, v)] ++ map_of xs" using Cons.IH d by simp
  also have "\<dots> = map_of (x # xs)"
    using none by (auto simp: x fun_eq_iff map_add_def split: option.splits)
  finally show ?case .
qed

lemma merge_params_map:
  "\<exists>m. \<forall>p. map_of (merge_params p pd) = map_of p ++ m"
proof (cases "dict_truthy pd")
  case True
  then show ?thesis
    by (intro exI [of _ "map_of (rev (the pd))"]) (simp add: merge_params_def map_of_dict_update)
next
  case False
  then show ?thesis
    by (intro exI [of _ Map.empty]) (simp add: merge_params_def)
qed

text \<open>
  The loop acts on \<^verbatim>\<open>params\<close> by overriding it with one fixed map, whatever the
  mapping it starts from; the query it returns does not depend on \<^verbatim>\<open>params\<close>.
\<close>

lemma template_loop_params:
  "template_loop tparams keys (q, p1) = Inr (q', p1') \<Longrightarrow>
   \<exists>m. \<forall>p. \<exists>p'. template_loop tparams keys (q, p) = Inr (q', p') \<and> map_of p' = map_of p ++ m"
proof (induction keys arbitrary: q p1 p1')
  case Nil
  then show ?case by (intro exI [of _ Map.empty]) simp
next
  case (Cons key keys)
  from Cons.prems obtain tq pd where
    step: "template_step tparams key = Inr (tq, pd)" and
    rest: "template_loop tparams keys
             (str_replace (''{'' @ key @ ''}'') ('' '' @ tq @ '' '') q, merge_params p1 pd)
           = Inr (q', p1')"
    by (auto simp: template_loop_Cons split: sum.splits)
  from Cons.IH [OF rest] obtain m2 where
    m2: "\<And>p. \<exists>p'. template_loop tparams keys
             (str_replace (''{'' @ key @ ''}'') ('' '' @ tq @ '' '') q, p) = Inr (q', p')
           \<and> map_of p' = map_of p ++ m2"
    by blast
  from merge_params_map obtain m1 where
    m1: "\<And>p. map_of (merge_params p pd) = map_of p ++ m1" by blast
  show ?case
  proof (intro exI [of _ "m1 ++ m2"] allI)
    fix p
    from m2 [of "merge_params p pd"] obtain p' where
      "template_loop tparams keys
         (str_replace (''{'' @ key @ ''}'') ('' '' @ tq @ '' '') q, merge_params p pd) = Inr (q', p')"
      "map_of p' = map_of (merge_params p pd) ++ m2" by blast
    then show "\<exists>p'. template_loop tparams (key # keys) (q, p) = Inr (q', p')
                 \<and> map_of p' = map_of p ++ (m1 ++ m2)"
      by (simp add: template_loop_Cons step m1)
  qed
qed

lemma str_of_nat_0: "str_of_nat 0 = ''0''"
  by (simp add: str_of_nat.simps digit_char_def)

lemma parameterize_list_str:
  "parameterize_list key (PStr s) =
     Inr (''( :'' @ string_binding_name key @ '' )'', [(string_binding_name key, PStr s)])"
  by (simp add: parameterize_list_def parameterize_inner_list_def inner_keys_values_def
      string_binding_name_def str_of_nat_0 Let_def)

section \<open>Decimal digits\<close>

lemma digit_char_all:
  "\<forall>n<10. is_digit (digit_char n) \<and> digit_val (digit_char n) = n"
  by (simp add: All_less_Suc eval_nat_numeral digit_char_def is_digit_def digit_val_def)

lemma digit_char_props:
  assumes "n < 10"
  shows "is_digit (digit_char n) \<and> digit_val (digit_char n) = n"
  using assms digit_char_all by blast

lemma str_of_nat_digits: "\<forall>c \<in> set (str_of_nat n). is_digit c"
proof (induction n rule: str_of_nat.induct)
  case (1 n)
  show ?case
  proof (cases "n < 10")
    case True
    then show ?thesis by (simp add: str_of_nat.simps [of n] digit_char_props)
  next
    case False
    then have "n mod 10 < 10" by simp
    with False 1 show ?thesis
      by (auto simp: str_of_nat.simps [of n] digit_char_props)
  qed
qed

lemma str_of_nat_nonempty: "str_of_nat n \<noteq> []"
  by (simp add: str_of_nat.simps [of n])

lemma str_of_nat_hd_digit: "is_digit (hd (str_of_nat n))"
  using str_of_nat_digits [of n] str_of_nat_nonempty [of n] by (cases "str_of_nat n") auto

lemma digits_val_str_of_nat: "digits_val (str_of_nat n) = n"
proof (induction n rule: str_of_nat.induct)
  case (1 n)
  show ?case
  proof (cases "n < 10")
    case True
    then show ?thesis by (simp add: str_of_nat.simps [of n] digits_val_def digit_char_props)
  next
    case False
    then have m: "n mod 10 < 10" by simp
    from False 1 have "digits_val (str_of_nat (n div 10)) = n div 10" by simp
    with False m show ?thesis
      by (simp add: str_of_nat.simps [of n] digits_val_def digit_char_props)
  qed
qed

lemma str_of_nat_inj: "str_of_nat m = str_of_nat n \<Longrightarrow> m = n"
  by (metis digits_val_str_of_nat)

section \<open>Replacing the dots\<close>

lemma str_replace_dot: "str_replace ''.'' ''_'' s = canon s"
proof (induction s)
  case Nil
  then show ?case by (simp add: str_replace.simps [of _ _ "[]"] canon_def)
next
  case (Cons c s)
  show ?case
  proof (cases "c = CHR ''.''")
    case True
    with Cons show ?thesis
      by (simp add: str_replace.simps [of "''.''" _ "CHR ''.'' # s"] canon_def)
  next
    case False
    with Cons show ?thesis
      by (simp add: str_replace.simps [of _ _ "c # s"] canon_def)
  qed
qed

lemma canon_append: "canon (a @ b) = canon a @ canon b"
  by (simp add: canon_def)

lemma canon_digits: "\<forall>c\<in>set s. is_digit c \<Longrightarrow> canon s = s"
  by (induction s) (auto simp: canon_def is_digit_def)

lemma canon_str_of_nat: "canon (str_of_nat n) = str_of_nat n"
  by (rule canon_digits) (rule str_of_nat_digits)

lemma canon_underscore: "canon (CHR ''_'' # s) = CHR ''_'' # canon s"
  by (simp add: canon_def)

lemma canon_idem: "canon (canon s) = canon s"
  by (induction s) (auto simp: canon_def)

section \<open>Dictionaries\<close>

lemma dict_set_new: "k \<notin> fst ` set d \<Longrightarrow> dict_set d k v = d @ [(k, v)]"
  by (induction d) auto

lemma dict_update_append: "dict_update d (a @ b) = dict_update (dict_update d a) b"
  by (induction a arbitrary: d) auto

lemma dict_update_new:
  "distinct (map fst e) \<Longrightarrow> fst ` set e \<inter> fst ` set d = {} \<Longrightarrow> dict_update d e = d @ e"
proof (induction e arbitrary: d)
  case Nil
  then show ?case by simp
next
  case (Cons x e)
  obtain k v where x: "x = (k, v)" by (cases x)
  from Cons.prems x have k: "k \<notin> fst ` set d" by auto
  from Cons.prems x have "distinct (map fst e)" and "fst ` set e \<inter> fst ` set (d @ [(k, v)]) = {}"
    by auto
  with Cons.IH have "dict_update (d @ [(k, v)]) e = (d @ [(k, v)]) @ e" by blast
  with k show ?case by (simp add: x dict_set_new)
qed

lemma dict_update_Nil_distinct: "distinct (map fst e) \<Longrightarrow> dict_update [] e = e"
  using dict_update_new [of e "[]"] by simp

lemma fst_set_dict_set: "fst ` set (dict_set d k v) = insert k (fst ` set d)"
proof (induction d)
  case Nil
  then show ?case by simp
next
  case (Cons x d)
  obtain k' v' where x: "x = (k', v')" by (cases x)
  show ?case
  proof (cases "k' = k")
    case True
    then show ?thesis by (simp add: x insert_absorb)
  next
    case False
    with Cons show ?thesis by (simp add: x insert_commute)
  qed
qed

lemma distinct_dict_set: "distinct (map fst d) \<Longrightarrow> distinct (map fst (dict_set d k v))"
  by (induction d) (auto simp: fst_set_dict_set)

lemma fst_set_dict_update: "fst ` set (dict_update d e) = fst ` set d \<union> fst ` set e"
proof (induction e arbitrary: d)
  case Nil
  then show ?case by simp
next
  case (Cons x e)
  obtain k v where x: "x = (k, v)" by (cases x)
  have "fst ` set (dict_update d (x # e)) = fst ` set (dict_set d k v) \<union> fst ` set e"
    using Cons.IH by (simp add: x)
  then show ?case by (simp add: fst_set_dict_set x)
qed

lemma distinct_dict_update: "distinct (map fst d) \<Longrightarrow> distinct (map fst (dict_update d e))"
  by (induction e arbitrary: d) (auto simp: distinct_dict_set)

section \<open>The bindings written by the parameterization\<close>

lemma inner_loop_eq:
  "inner_loop key (enumerate n xs) (ks, pv) =
     (ks @ map (\<lambda>(i, v). canon key @ ''_'' @ str_of_nat i) (enumerate n xs),
      dict_update pv (map (\<lambda>(i, v). (canon key @ ''_'' @ str_of_nat i, v)) (enumerate n xs)))"
  by (induction xs arbitrary: n ks pv) (simp_all add: str_replace_dot Let_def)

lemma inner_keys_values_eq:
  "inner_keys_values key values =
     (map fst (inner_bindings key values), dict_update [] (inner_bindings key values))"
  by (simp add: inner_keys_values_def inner_bindings_def inner_loop_eq str_replace_dot
      case_prod_unfold comp_def)

lemma indexed_names_distinct:
  "distinct (map (\<lambda>(i, v). p @ str_of_nat i) (enumerate n xs))"
proof -
  have "map (\<lambda>(i, v). p @ str_of_nat i) (enumerate n xs)
          = map (\<lambda>i. p @ str_of_nat i) [n..<n + length xs]"
    by (simp add: enumerate_eq_zip map_fst_zip_take case_prod_unfold
        flip: map_map [of "\<lambda>i. p @ str_of_nat i" fst, unfolded comp_def])
  moreover have "inj_on (\<lambda>i. p @ str_of_nat i) (set [n..<n + length xs])"
    by (auto simp: inj_on_def dest: str_of_nat_inj)
  ultimately show ?thesis by (simp add: distinct_map)
qed

lemma inner_bindings_distinct: "distinct (map fst (inner_bindings key values))"
proof (cases "is_list_or_tuple values")
  case False
  then show ?thesis by (simp add: inner_bindings_def)
next
  case True
  have "map fst (map (\<lambda>(index, val). (canon key @ ''_'' @ str_of_nat index, val))
                     (enumerate 0 (the (py_iter values))))
        = map (\<lambda>(i, v). (canon key @ ''_'') @ str_of_nat i) (enumerate 0 (the (py_iter values)))"
    by (simp add: case_prod_unfold)
  with True show ?thesis
    using indexed_names_distinct [of "canon key @ ''_''" 0 "the (py_iter values)"]
    by (simp add: inner_bindings_def str_replace_dot comp_def case_prod_unfold)
qed

lemma inner_keys_values_bindings:
  "inner_keys_values key values = (map fst (inner_bindings key values), inner_bindings key values)"
  by (simp add: inner_keys_values_eq dict_update_Nil_distinct inner_bindings_distinct)

lemma element_bindings_pair:
  "element_bindings key (i, v) = inner_bindings (key @ ''_'' @ str_of_nat i) v"
  by (simp add: element_bindings_def)

lemma parameterize_inner_list_snd:
  "snd (parameterize_inner_list key values) = inner_bindings key values"
  by (simp add: parameterize_inner_list_def inner_keys_values_bindings)

lemma parameterize_list_loop_eq:
  "parameterize_list_loop key values (enumerate n xs) (pik, pv) =
     (if list_all (tuple_path key) xs
      then (py_join '', ''
              (pik @ map (\<lambda>iv. fst (parameterize_inner_list (key @ ''_'' @ str_of_nat (fst iv)) (snd iv)))
                       (enumerate n xs)),
            dict_update pv (concat (map (element_bindings key) (enumerate n xs))))
      else parameterize_inner_list key values)"
proof (induction xs arbitrary: n pik pv)
  case Nil
  then show ?case by simp
next
  case (Cons x xs)
  show ?case
  proof (cases "tuple_path key x")
    case False
    then show ?thesis by (simp add: tuple_path_def)
  next
    case True
    obtain frag where pil: "parameterize_inner_list (key @ ''_'' @ str_of_nat n) x
                        = (frag, inner_bindings (key @ ''_'' @ str_of_nat n) x)"
      using parameterize_inner_list_snd [of "key @ ''_'' @ str_of_nat n" x]
      by (cases "parameterize_inner_list (key @ ''_'' @ str_of_nat n) x") auto
    from True have step: "parameterize_list_loop key values (enumerate n (x # xs)) (pik, pv) =
        parameterize_list_loop key values (enumerate (Suc n) xs)
          (pik @ [frag], dict_update pv (inner_bindings (key @ ''_'' @ str_of_nat n) x))"
      using pil by (simp add: tuple_path_def)
    show ?thesis
      unfolding step Cons.IH
      using True pil by (simp add: element_bindings_pair dict_update_append)
  qed
qed

lemma parameterize_list_bindings:
  assumes "parameterize_list key values = Inr (frag, d)"
  shows "d = dict_update [] (list_bindings key values)"
proof -
  define values' where "values' = (if is_str values then PTuple [values] else values)"
  from assms obtain xs where it: "py_iter values' = Some xs"
    and r: "parameterize_list_loop key values' (enumerate 0 xs) ([], []) = (frag, d)"
    by (auto simp: parameterize_list_def values'_def Let_def split: option.splits)
  show ?thesis
  proof (cases "list_all (tuple_path key) xs")
    case True
    with r it show ?thesis
      by (simp add: parameterize_list_loop_eq list_bindings_def Let_def flip: values'_def)
  next
    case False
    with r have "d = inner_bindings key values'"
      using parameterize_inner_list_snd [of key values']
      by (simp add: parameterize_list_loop_eq)
    with False it show ?thesis
      by (simp add: list_bindings_def Let_def dict_update_Nil_distinct inner_bindings_distinct
          flip: values'_def)
  qed
qed

section \<open>The shape of the binding names\<close>

lemma not_digit_underscore: "\<not> is_digit CHR ''_''"
  by (simp add: is_digit_def)

lemma takeWhile_stop:
  "\<forall>c\<in>set a. P c \<Longrightarrow> b \<noteq> [] \<Longrightarrow> \<not> P (hd b) \<Longrightarrow> takeWhile P (a @ b) = a"
  by (induction a) (auto simp: takeWhile_eq_Nil_iff)

lemma takeWhile_digits:
  "\<forall>c\<in>set a. is_digit c \<Longrightarrow> s = [] \<or> \<not> is_digit (hd s) \<Longrightarrow> takeWhile is_digit (a @ s) = a"
  by (cases s) (simp_all add: takeWhile_append2)

lemma digits_split_unique:
  assumes "\<forall>c\<in>set a. is_digit c" "\<forall>c\<in>set b. is_digit c"
    and "s = [] \<or> \<not> is_digit (hd s)" "t = [] \<or> \<not> is_digit (hd t)"
    and "a @ s = b @ t"
  shows "a = b \<and> s = t"
proof -
  have "takeWhile is_digit (a @ s) = a" using assms(1,3) by (rule takeWhile_digits)
  moreover have "takeWhile is_digit (b @ t) = b" using assms(2,4) by (rule takeWhile_digits)
  ultimately have "a = b" using assms(5) by simp
  with assms(5) show ?thesis by simp
qed

text \<open>A name is tagged with the index \<open>i\<close> under \<open>key\<close>.\<close>

lemma tagged_unique: "tagged key i nm \<Longrightarrow> tagged key j nm \<Longrightarrow> i = j"
proof -
  assume ti: "tagged key i nm" and tj: "tagged key j nm"
  from ti obtain s where
    s: "canon nm = canon key @ ''_'' @ str_of_nat i @ s" "s = [] \<or> \<not> is_digit (hd s)"
    unfolding tagged_def by blast
  from tj obtain t where
    t: "canon nm = canon key @ ''_'' @ str_of_nat j @ t" "t = [] \<or> \<not> is_digit (hd t)"
    unfolding tagged_def by blast
  from s(1) t(1) have "str_of_nat i @ s = str_of_nat j @ t" by simp
  with digits_split_unique [OF str_of_nat_digits str_of_nat_digits s(2) t(2)]
  have "str_of_nat i = str_of_nat j" by blast
  then show ?thesis by (rule str_of_nat_inj)
qed

lemma inner_bindings_names:
  "nm \<in> fst ` set (inner_bindings k v) \<Longrightarrow>
     nm = k \<or> (\<exists>j. nm = canon k @ ''_'' @ str_of_nat j)"
  by (auto simp: inner_bindings_def str_replace_dot split: if_splits)

lemma inner_bindings_indexed:
  "is_list_or_tuple v \<Longrightarrow> nm \<in> fst ` set (inner_bindings k v) \<Longrightarrow>
     \<exists>j. nm = canon k @ ''_'' @ str_of_nat j"
  by (auto simp: inner_bindings_def str_replace_dot)

lemma element_bindings_tagged:
  assumes "nm \<in> fst ` set (element_bindings key (i, v))"
  shows "tagged key i nm"
proof -
  from assms have "nm = key @ ''_'' @ str_of_nat i
      \<or> (\<exists>j. nm = canon (key @ ''_'' @ str_of_nat i) @ ''_'' @ str_of_nat j)"
    by (auto simp: element_bindings_pair dest!: inner_bindings_names)
  then show ?thesis
  proof
    assume "nm = key @ ''_'' @ str_of_nat i"
    then have "canon nm = canon key @ ''_'' @ str_of_nat i @ []"
      by (simp add: canon_append canon_str_of_nat canon_underscore)
    then show ?thesis unfolding tagged_def by blast
  next
    assume "\<exists>j. nm = canon (key @ ''_'' @ str_of_nat i) @ ''_'' @ str_of_nat j"
    then obtain j where "nm = canon (key @ ''_'' @ str_of_nat i) @ ''_'' @ str_of_nat j" ..
    then have "canon nm = canon key @ ''_'' @ str_of_nat i @ (''_'' @ str_of_nat j)"
      by (simp add: canon_append canon_str_of_nat canon_idem canon_underscore)
    moreover have "\<not> is_digit (hd (''_'' @ str_of_nat j))" by (simp add: not_digit_underscore)
    ultimately show ?thesis unfolding tagged_def by blast
  qed
qed

lemma flat_bindings_tagged:
  assumes "is_list_or_tuple v" "nm \<in> fst ` set (inner_bindings key v)"
  shows "\<exists>i. tagged key i nm"
proof -
  from inner_bindings_indexed [OF assms] obtain j where "nm = canon key @ ''_'' @ str_of_nat j" ..
  then have "canon nm = canon key @ ''_'' @ str_of_nat j @ []"
    by (simp add: canon_append canon_str_of_nat canon_idem canon_underscore)
  then show ?thesis unfolding tagged_def by blast
qed

lemma enumerate_index_ge: "(i, v) \<in> set (enumerate n xs) \<Longrightarrow> n \<le> i"
  by (auto simp: enumerate_eq_zip dest!: set_zip_leftD)

lemma element_bindings_concat_distinct:
  "distinct (map fst (concat (map (element_bindings key) (enumerate n xs))))"
proof (induction xs arbitrary: n)
  case Nil
  then show ?case by simp
next
  case (Cons x xs)
  have d1: "distinct (map fst (element_bindings key (n, x)))"
    by (simp add: element_bindings_pair inner_bindings_distinct)
  have disj: "fst ` set (element_bindings key (n, x))
        \<inter> fst ` set (concat (map (element_bindings key) (enumerate (Suc n) xs))) = {}"
  proof (rule ccontr)
    assume "\<not> ?thesis"
    then obtain nm where a: "nm \<in> fst ` set (element_bindings key (n, x))"
      and b: "nm \<in> fst ` set (concat (map (element_bindings key) (enumerate (Suc n) xs)))"
      by blast
    from b obtain i v where iv: "(i, v) \<in> set (enumerate (Suc n) xs)"
      and c: "nm \<in> fst ` set (element_bindings key (i, v))"
      by auto
    from iv have "Suc n \<le> i" by (rule enumerate_index_ge)
    moreover from a c have "n = i"
      by (blast intro: tagged_unique element_bindings_tagged)
    ultimately show False by simp
  qed
  from d1 Cons.IH [of "Suc n"] disj show ?case by auto
qed

lemma py_iter_list_or_tuple:
  "py_iter (if is_str v then PTuple [v] else v) = Some xs \<Longrightarrow>
     is_list_or_tuple (if is_str v then PTuple [v] else v)"
  by (cases v) auto

lemma list_bindings_distinct: "distinct (map fst (list_bindings key v))"
proof -
  define v' where "v' = (if is_str v then PTuple [v] else v)"
  show ?thesis
  proof (cases "py_iter v'")
    case None
    then show ?thesis by (simp add: list_bindings_def Let_def flip: v'_def)
  next
    case (Some xs)
    then show ?thesis
      by (simp add: list_bindings_def Let_def element_bindings_concat_distinct
          inner_bindings_distinct flip: v'_def)
  qed
qed

lemma list_bindings_tagged:
  assumes "nm \<in> fst ` set (list_bindings key v)"
  shows "\<exists>i. tagged key i nm"
proof -
  define v' where "v' = (if is_str v then PTuple [v] else v)"
  have "py_iter v' \<noteq> None"
  proof
    assume "py_iter v' = None"
    with assms show False by (simp add: list_bindings_def Let_def flip: v'_def)
  qed
  then obtain xs where it: "py_iter v' = Some xs" by blast
  then have lt: "is_list_or_tuple v'" unfolding v'_def by (rule py_iter_list_or_tuple)
  show ?thesis
  proof (cases "list_all (tuple_path key) xs")
    case True
    with assms it have "nm \<in> fst ` set (concat (map (element_bindings key) (enumerate 0 xs)))"
      by (simp add: list_bindings_def Let_def flip: v'_def)
    then obtain i x where "nm \<in> fst ` set (element_bindings key (i, x))" by auto
    then show ?thesis by (blast intro: element_bindings_tagged)
  next
    case False
    with assms it have "nm \<in> fst ` set (inner_bindings key v')"
      by (simp add: list_bindings_def Let_def flip: v'_def)
    with lt show ?thesis by (rule flat_bindings_tagged)
  qed
qed

text \<open>Keys without digits: the key is read off a tagged name.\<close>

lemma canon_no_digit: "\<forall>c\<in>set k. \<not> is_digit c \<Longrightarrow> \<forall>c\<in>set (canon k). \<not> is_digit c"
  by (auto simp: canon_def is_digit_def)

lemma tagged_key_unique:
  assumes k1: "\<forall>c\<in>set k1. \<not> is_digit c" and k2: "\<forall>c\<in>set k2. \<not> is_digit c"
    and t1: "tagged k1 i nm" and t2: "tagged k2 j nm"
  shows "canon k1 = canon k2"
proof -
  from t1 obtain s where s: "canon nm = (canon k1 @ ''_'') @ str_of_nat i @ s"
    unfolding tagged_def by auto
  from t2 obtain t where t: "canon nm = (canon k2 @ ''_'') @ str_of_nat j @ t"
    unfolding tagged_def by auto
  have hd1: "is_digit (hd (str_of_nat i @ s))" and hd2: "is_digit (hd (str_of_nat j @ t))"
    using str_of_nat_nonempty by (simp_all add: hd_append str_of_nat_hd_digit)
  have ne1: "str_of_nat i @ s \<noteq> []" and ne2: "str_of_nat j @ t \<noteq> []"
    using str_of_nat_nonempty by simp_all
  have n1: "\<forall>c\<in>set (canon k1 @ ''_''). \<not> is_digit c"
    using canon_no_digit [OF k1] by (auto simp: not_digit_underscore)
  have n2: "\<forall>c\<in>set (canon k2 @ ''_''). \<not> is_digit c"
    using canon_no_digit [OF k2] by (auto simp: not_digit_underscore)
  have "takeWhile (\<lambda>c. \<not> is_digit c) (canon nm) = canon k1 @ ''_''"
    unfolding s using n1 hd1 ne1 by (intro takeWhile_stop) simp_all
  moreover have "takeWhile (\<lambda>c. \<not> is_digit c) (canon nm) = canon k2 @ ''_''"
    unfolding t using n2 hd2 ne2 by (intro takeWhile_stop) simp_all
  ultimately show ?thesis by simp
qed

section \<open>The keys that validation returns\<close>

lemma ident_char_plain:
  "ident_char c \<Longrightarrow> \<not> is_digit c \<and> c \<noteq> CHR ''{'' \<and> c \<noteq> CHR ''}'' \<and> c \<noteq> CHR '' ''"
  unfolding ident_char_def is_digit_def by auto

lemma key_ok_chars:
  assumes "key_ok k" and "c \<in> set k"
  shows "\<not> is_digit c \<and> c \<noteq> CHR ''{'' \<and> c \<noteq> CHR ''}'' \<and> c \<noteq> CHR '' ''"
proof -
  from assms have "ident_char c \<or> c = CHR ''.''" by (auto simp: key_ok_def list_all_iff)
  then show ?thesis
  proof
    assume "ident_char c" then show ?thesis by (rule ident_char_plain)
  next
    assume "c = CHR ''.''" then show ?thesis by (simp add: is_digit_def)
  qed
qed

lemma key_ok_append: "key_ok (a @ b) = (key_ok a \<and> key_ok b)"
  by (simp add: key_ok_def)

lemma key_ok_Cons: "key_ok (c # s) = ((ident_char c \<or> c = CHR ''.'') \<and> key_ok s)"
  by (simp add: key_ok_def)

lemma key_ok_Nil: "key_ok []"
  by (simp add: key_ok_def)

lemma ident_char_underscore: "ident_char CHR ''_''"
  by (simp add: ident_char_def)

lemma key_ok_takeWhile: "key_ok (takeWhile ident_char s)"
  by (auto simp: key_ok_def list_all_iff dest: set_takeWhileD)

lemma match_keyword_ok: "match_keyword s = Some (kw, r) \<Longrightarrow> key_ok kw"
  by (auto simp: match_keyword_def key_ok_def ident_char_def split: if_splits)

lemma match_names_ok: "match_names s = Some (tbl, col, r) \<Longrightarrow> key_ok (tbl @ col)"
  by (auto simp: match_names_def Let_def key_ok_append key_ok_takeWhile key_ok_Cons key_ok_Nil
      split: if_splits list.splits)

lemma match_here_ok:
  assumes "match_here s = Some (g, r)"
  shows "key_ok (make_key g)"
proof -
  from assms obtain c s2 kw s3 tbl col s4 where
    kw: "match_keyword s2 = Some (kw, s3)" and
    nm: "match_names s3 = Some (tbl, col, s4)" and
    g: "g2 g = kw" "g3 g = tbl" "g4 g = col"
    by (auto simp: match_here_def Let_def split: list.splits if_splits option.splits)
  from match_keyword_ok [OF kw] match_names_ok [OF nm] g show ?thesis
    by (auto simp: make_key_def key_ok_append key_ok_Cons ident_char_underscore)
qed

lemma findall_ok: "g \<in> set (findall s) \<Longrightarrow> key_ok (make_key g)"
proof (induction s rule: findall.induct)
  case (1 s)
  show ?case
  proof (cases "s = []")
    case True
    with "1.prems" show ?thesis by (simp add: findall.simps [of "[]"])
  next
    case False
    show ?thesis
    proof (cases "match_here s")
      case None
      with False 1 show ?thesis by (simp add: findall.simps [of s])
    next
      case (Some gr)
      obtain g' r where gr: "gr = (g', r)" by (cases gr)
      with Some False "1.prems" have "g = g' \<or> g \<in> set (findall r)"
        by (simp add: findall.simps [of s])
      then show ?thesis
      proof
        assume "g = g'"
        with Some gr show ?thesis by (auto dest: match_here_ok)
      next
        assume "g \<in> set (findall r)"
        with "1.IH"(2) [OF False Some gr [symmetric]] show ?thesis by (simp add: gr)
      qed
    qed
  qed
qed

lemma validate_loop_keys:
  "validate_loop tp gs (q, vk) = Inr (q', keys) \<Longrightarrow> keys = vk @ map make_key gs"
proof (induction gs arbitrary: q vk)
  case Nil
  then show ?case by simp
next
  case (Cons g gs)
  from Cons.prems obtain q1 where
    "validate_loop tp gs (q1, vk @ [make_key g]) = Inr (q', keys)"
    by (auto simp: Let_def split: sum.splits if_splits)
  from Cons.IH [OF this] show ?case by simp
qed

lemma validate_keys:
  assumes "validate_keys_clean_query q tp = Inr (q1, keys)"
  shows "keys = map make_key (findall q)" and "\<forall>k\<in>set keys. key_ok k"
proof -
  from assms show k: "keys = map make_key (findall q)"
    by (auto simp: validate_keys_clean_query_def dest: validate_loop_keys)
  show "\<forall>k\<in>set keys. key_ok k" unfolding k by (auto dest: findall_ok)
qed

section \<open>The bindings of one round and of the whole loop\<close>

lemma split_from_Nil: "split_from sep cur [] = [cur]"
  by (simp add: split_from.simps [of sep cur "[]"])

lemma py_split_two_nonempty: "py_split sep key = [a, b] \<Longrightarrow> key \<noteq> []"
  by (auto simp: py_split_def split_from_Nil)

lemma call_template_bindings:
  assumes "call_template t col v (Some key) = Inr (f, pd)" and "key \<noteq> []"
  shows "(\<not> truthy v \<and> pd = None) \<or> (truthy v \<and> pd = Some (list_bindings key v))"
proof (cases "truthy v")
  case False
  with assms(1) show ?thesis
    by (cases t) (auto simp: in_column_def not_in_column_def values_template_def)
next
  case True
  from assms(2) have kn: "key_name_of col (Some key) = key" by (simp add: key_name_of_def)
  from True assms(1) obtain keys vals where
    pl: "parameterize_list key v = Inr (keys, vals)" and pd: "pd = Some vals"
    by (cases t)
      (auto simp: in_column_def not_in_column_def values_template_def kn split: sum.splits)
  from parameterize_list_bindings [OF pl] have "vals = list_bindings key v"
    by (simp add: dict_update_Nil_distinct list_bindings_distinct)
  with True pd show ?thesis by simp
qed

lemma template_step_bindings:
  assumes "template_step tp key = Inr (f, pd)"
  shows "merge_params p pd = dict_update p (key_bindings tp key)"
proof -
  from assms obtain a b t v h where
    sp: "py_split ''__'' key = [a, b]" and tp: "tp = Some t" and
    v: "dict_get t key = Some v" and
    call: "call_template h b v (Some key) = Inr (f, pd)"
    by (auto simp: template_step_def split: list.splits option.splits)
  from sp have "key \<noteq> []" by (rule py_split_two_nonempty)
  from call_template_bindings [OF call this] show ?thesis
    by (auto simp: merge_params_def dict_truthy_def key_bindings_def tp v)
qed

lemma template_loop_bindings:
  "template_loop tp keys (q, p) = Inr (q', p') \<Longrightarrow>
     p' = dict_update p (concat (map (key_bindings tp) keys))"
proof (induction keys arbitrary: q p)
  case Nil
  then show ?case by simp
next
  case (Cons key keys)
  from Cons.prems obtain f pd where
    step: "template_step tp key = Inr (f, pd)" and
    rest: "template_loop tp keys
             (str_replace (''{'' @ key @ ''}'') ('' '' @ f @ '' '') q, merge_params p pd)
           = Inr (q', p')"
    by (auto simp: template_loop_Cons split: sum.splits)
  from Cons.IH [OF rest] show ?case
    by (simp add: template_step_bindings [OF step] dict_update_append)
qed

lemma key_bindings_distinct: "distinct (map fst (key_bindings tp k))"
  by (simp add: key_bindings_def list_bindings_distinct split: option.splits)

lemma key_bindings_tagged:
  "nm \<in> fst ` set (key_bindings tp k) \<Longrightarrow> \<exists>i. tagged k i nm"
  by (auto simp: key_bindings_def split: option.splits if_splits
      intro: list_bindings_tagged [OF image_eqI [OF _ _]])

section \<open>All the positions of a query\<close>

lemma placeholder_keys_ok: "k \<in> set (placeholder_keys q) \<Longrightarrow> key_ok k"
  by (auto simp: placeholder_keys_def dest: findall_ok)

lemma key_ok_no_digit: "key_ok k \<Longrightarrow> \<forall>c\<in>set k. \<not> is_digit c"
  by (blast dest: key_ok_chars)

lemma distinct_concat_bindings:
  assumes "distinct ks"
    and "\<And>k. k \<in> set ks \<Longrightarrow> distinct (map fst (f k))"
    and "\<And>k1 k2. k1 \<in> set ks \<Longrightarrow> k2 \<in> set ks \<Longrightarrow> k1 \<noteq> k2
           \<Longrightarrow> fst ` set (f k1) \<inter> fst ` set (f k2) = {}"
  shows "distinct (map fst (concat (map f ks)))"
  using assms
proof (induction ks)
  case Nil
  then show ?case by simp
next
  case (Cons k ks)
  have "distinct (map fst (concat (map f ks)))"
    using Cons by simp
  moreover have "distinct (map fst (f k))" using Cons.prems(2) by simp
  moreover have "fst ` set (f k) \<inter> fst ` set (concat (map f ks)) = {}"
  proof -
    have h: "\<And>k'. k' \<in> set ks \<Longrightarrow> fst ` set (f k) \<inter> fst ` set (f k') = {}"
      using Cons.prems(1,3) by auto
    have False if a: "nm \<in> fst ` set (f k)" and b: "nm \<in> fst ` set (concat (map f ks))" for nm
    proof -
      from b obtain k' where "k' \<in> set ks" "nm \<in> fst ` set (f k')" by auto
      with h a show False by blast
    qed
    then show ?thesis by blast
  qed
  ultimately show ?case by simp
qed

lemma key_bindings_disjoint:
  assumes "key_ok k1" "key_ok k2" "canon k1 \<noteq> canon k2"
  shows "fst ` set (key_bindings tp k1) \<inter> fst ` set (key_bindings tp k2) = {}"
proof (rule ccontr)
  assume "\<not> ?thesis"
  then obtain nm where "nm \<in> fst ` set (key_bindings tp k1)" "nm \<in> fst ` set (key_bindings tp k2)"
    by blast
  then obtain i j where t1: "tagged k1 i nm" and t2: "tagged k2 j nm"
    using key_bindings_tagged [of nm tp k1] key_bindings_tagged [of nm tp k2] by blast
  have "canon k1 = canon k2"
    by (rule tagged_key_unique
        [OF key_ok_no_digit [OF assms(1)] key_ok_no_digit [OF assms(2)] t1 t2])
  with assms(3) show False by simp
qed

lemma all_bindings_distinct:
  assumes "inj_on (str_replace ''.'' ''_'') (set (placeholder_keys (query d)))"
  shows "distinct (map fst (all_bindings d))"
  unfolding all_bindings_def
proof (rule distinct_concat_bindings)
  show "distinct (remdups (placeholder_keys (query d)))" by simp
next
  fix k show "distinct (map fst (key_bindings (template_params d) k))"
    by (rule key_bindings_distinct)
next
  fix k1 k2
  assume k: "k1 \<in> set (remdups (placeholder_keys (query d)))"
    "k2 \<in> set (remdups (placeholder_keys (query d)))" "k1 \<noteq> k2"
  with assms have "canon k1 \<noteq> canon k2"
    by (auto simp: inj_on_def str_replace_dot)
  moreover from k have "key_ok k1" "key_ok k2" by (auto dest: placeholder_keys_ok)
  ultimately show "fst ` set (key_bindings (template_params d) k1)
          \<inter> fst ` set (key_bindings (template_params d) k2) = {}"
    by (intro key_bindings_disjoint)
qed

lemma set_dict_update_functional:
  assumes "\<And>n v v'. (n, v) \<in> set e \<Longrightarrow> (n, v') \<in> set e \<Longrightarrow> v = v'"
  shows "set (dict_update [] e) = set e"
proof -
  have d: "distinct (map fst (dict_update [] e))" by (rule distinct_dict_update) simp
  have m: "map_of (dict_update [] e) = map_of (rev e)" by (simp add: map_of_dict_update)
  show ?thesis
  proof (intro set_eqI iffI)
    fix x assume "x \<in> set (dict_update [] e)"
    moreover obtain n v where x: "x = (n, v)" by (cases x)
    ultimately have "map_of (dict_update [] e) n = Some v"
      using d by simp
    then have "map_of (rev e) n = Some v" by (simp add: m)
    then show "x \<in> set e" unfolding x by (auto dest: map_of_SomeD)
  next
    fix x assume xe: "x \<in> set e"
    obtain n v where x: "x = (n, v)" by (cases x)
    from xe x have "n \<in> fst ` set e" by force
    then have "map_of (rev e) n \<noteq> None" by (simp add: map_of_eq_None_iff)
    then obtain v' where v': "map_of (rev e) n = Some v'" by blast
    then have "(n, v') \<in> set e" by (auto dest: map_of_SomeD)
    with assms xe x have "v' = v" by blast
    with v' have "map_of (dict_update [] e) n = Some v" by (simp add: m)
    with d show "x \<in> set (dict_update [] e)" unfolding x by simp
  qed
qed
















section \<open>The rendered fragments hold no opening brace\<close>












section \<open>The query that the loop returns\<close>





section \<open>The combining mapper folds the partitions\<close>

lemma set_first_seen: "set (first_seen xs) = set xs"
  by (induction xs) auto

lemma distinct_first_seen: "distinct (first_seen xs)"
  by (induction xs) (auto simp: set_first_seen)

lemma first_seen_snoc:
  "first_seen (xs @ [x]) = (if x \<in> set xs then first_seen xs else first_seen xs @ [x])"
  by (induction xs) auto

lemma those_append:
  "those (xs @ ys) = (case those xs of None \<Rightarrow> None | Some a \<Rightarrow> map_option (\<lambda>b. a @ b) (those ys))"
proof (induction xs)
  case Nil
  then show ?case by (cases "those ys") simp_all
next
  case (Cons x xs)
  then show ?case
    by (cases x; cases "those xs"; cases "those ys") simp_all
qed

lemma those_map_None:
  "x \<in> set xs \<Longrightarrow> g x = None \<Longrightarrow> those (map g xs) = None"
  by (induction xs) (auto split: option.splits)

lemma those_map_None_iff:
  "those (map g xs) = None \<longleftrightarrow> (\<exists>x\<in>set xs. g x = None)"
  by (induction xs) (auto split: option.splits)

lemma those_map_cong:
  "(\<And>x. x \<in> set xs \<Longrightarrow> g x = h x) \<Longrightarrow> those (map g xs) = those (map h xs)"
  by (induction xs) (auto split: option.splits)

lemma those_map_snd:
  "map_option (map snd) (those (map (\<lambda>i. map_option (Pair i) (F i)) ids)) = those (map F ids)"
proof (induction ids)
  case Nil
  then show ?case by simp
next
  case (Cons i ids)
  then show ?case
    by (cases "F i"; cases "those (map (\<lambda>i. map_option (Pair i) (F i)) ids)";
        cases "those (map F ids)") simp_all
qed

lemma fold_from_append:
  "fold_from c sch rec (a @ b) =
     (case fold_from c sch rec a of None \<Rightarrow> None | Some rec' \<Rightarrow> fold_from c sch rec' b)"
  by (induction a arbitrary: rec) (auto split: option.splits)

lemma fold_partition_single:
  "fold_partition c sch [r] = fold_row c sch (init_record sch r) r"
  by (simp add: fold_partition_def split: option.splits)

lemma fold_partition_append:
  "part \<noteq> [] \<Longrightarrow> fold_partition c sch (part @ rest) =
     (case fold_partition c sch part of None \<Rightarrow> None | Some rec \<Rightarrow> fold_from c sch rec rest)"
proof (cases part)
  case Nil
  assume "part \<noteq> []"
  with Nil show ?thesis by simp
next
  case (Cons a list)
  have "fold_from c sch (init_record sch a) ((a # list) @ rest) =
     (case fold_from c sch (init_record sch a) (a # list) of None \<Rightarrow> None
      | Some rec \<Rightarrow> fold_from c sch rec rest)"
    by (rule fold_from_append)
  then show ?thesis by (simp add: fold_partition_def Cons)
qed

lemma fold_partition_snoc:
  "part \<noteq> [] \<Longrightarrow> fold_partition c sch (part @ [r]) =
     (case fold_partition c sch part of None \<Rightarrow> None | Some rec \<Rightarrow> fold_row c sch rec r)"
  by (simp add: fold_partition_append split: option.splits)

lemma those_map_update:
  assumes "distinct ids" "i \<in> set ids" "those (map g ids) = Some st"
    and "\<And>j. j \<in> set ids \<Longrightarrow> j \<noteq> i \<Longrightarrow> g' j = g j"
    and "g' i = map_option (Pair i) X"
    and "\<And>j y. j \<in> set ids \<Longrightarrow> g j = Some y \<Longrightarrow> fst y = j"
  shows "those (map g' ids) = map_option (\<lambda>rec'. dict_set st i rec') X"
  using assms
proof (induction ids arbitrary: st)
  case Nil
  then show ?case by simp
next
  case (Cons j rest)
  from Cons.prems(3) obtain y st' where gj: "g j = Some y" and rest: "those (map g rest) = Some st'"
    and st: "st = y # st'"
    by (auto split: option.splits)
  from Cons.prems(6) [of j y] gj have fy: "fst y = j" by simp
  show ?case
  proof (cases "j = i")
    case True
    with Cons.prems(1) have "i \<notin> set rest" by simp
    then have "those (map g' rest) = those (map g rest)"
      using Cons.prems(4) by (intro those_map_cong) auto
    with rest True Cons.prems(5) fy show ?thesis
      by (cases y; cases X) (simp_all add: st)
  next
    case False
    with Cons.prems have "those (map g' rest) = map_option (\<lambda>rec'. dict_set st' i rec') X"
      by (intro Cons.IH [OF _ _ rest]) auto
    moreover from False Cons.prems(4) gj have "g' j = Some y" by simp
    ultimately show ?thesis using False fy
      by (cases y; cases X) (simp_all add: st)
  qed
qed

lemma those_keyed_fst:
  "those (map (\<lambda>i. map_option (Pair i) (F i)) ids) = Some st \<Longrightarrow> map fst st = ids"
proof (induction ids arbitrary: st)
  case Nil
  then show ?case by simp
next
  case (Cons i ids)
  then show ?case
    by (cases "F i"; cases "those (map (\<lambda>i. map_option (Pair i) (F i)) ids)") auto
qed

lemma keyed_partitions_fst:
  assumes "keyed_partitions c sch pre = Some st"
  shows "map fst st = first_seen (map (identity sch) pre)"
  using assms unfolding keyed_partitions_def by (rule those_keyed_fst)

lemma keyed_partitions_step:
  assumes pre: "keyed_partitions c sch pre = Some st"
  shows "step c sch st r = keyed_partitions c sch (pre @ [r])"
proof -
  define i where "i = identity sch r"
  define ids where "ids = first_seen (map (identity sch) pre)"
  define g where "g = (\<lambda>j. map_option (Pair j)
      (fold_partition c sch (filter (\<lambda>r. identity sch r = j) pre)))"
  define g' where "g' = (\<lambda>j. map_option (Pair j)
      (fold_partition c sch (filter (\<lambda>r. identity sch r = j) (pre @ [r]))))"
  have st: "those (map g ids) = Some st"
    using pre by (simp add: keyed_partitions_def g_def ids_def)
  have fst_st: "map fst st = ids"
    using keyed_partitions_fst [OF pre] by (simp add: ids_def)
  have dist: "distinct ids" by (simp add: ids_def distinct_first_seen)
  have set_ids: "set ids = identity sch ` set pre" by (simp add: ids_def set_first_seen)
  have other: "g' j = g j" if "j \<noteq> i" for j
    using that by (simp add: g'_def g_def i_def)
  show ?thesis
  proof (cases "i \<in> set ids")
    case False
    then have none: "map_of st i = None"
      using fst_st by (metis map_of_eq_None_iff set_map)
    from False have "filter (\<lambda>r. identity sch r = i) pre = []"
      by (auto simp: set_ids filter_empty_conv)
    then have gi: "g' i = map_option (Pair i) (fold_row c sch (init_record sch r) r)"
      by (simp add: g'_def i_def fold_partition_single)
    have "those (map g' ids) = those (map g ids)"
      using False by (intro those_map_cong other) auto
    with st have st': "those (map g' ids) = Some st" by simp
    have fs: "first_seen (map (identity sch) (pre @ [r])) = ids @ [i]"
      using False by (simp add: first_seen_snoc ids_def i_def set_first_seen)
    have kp: "keyed_partitions c sch (pre @ [r])
        = those (map g' (first_seen (map (identity sch) (pre @ [r]))))"
      by (simp only: keyed_partitions_def g'_def)
    have "keyed_partitions c sch (pre @ [r])
        = map_option (\<lambda>rec. st @ [(i, rec)]) (fold_row c sch (init_record sch r) r)"
      unfolding kp fs
      by (cases "fold_row c sch (init_record sch r) r") (simp_all add: those_append st' gi)
    with none show ?thesis by (simp add: step_def Let_def flip: i_def)
  next
    case True
    with st obtain y where gy: "g i = Some y"
      by (cases "g i") (auto dest: those_map_None)
    then obtain rec where rec: "fold_partition c sch (filter (\<lambda>r. identity sch r = i) pre) = Some rec"
      and y: "y = (i, rec)"
      by (auto simp: g_def)
    have mem: "(i, rec) \<in> set st"
    proof -
      have "\<And>st. those (map g ids) = Some st \<Longrightarrow> i \<in> set ids \<Longrightarrow> (i, rec) \<in> set st" for ids
      proof (induction ids)
        case Nil
        then show ?case by simp
      next
        case (Cons j ids)
        then show ?case
          using gy y by (cases "g j"; cases "those (map g ids)") auto
      qed
      with st True show ?thesis by blast
    qed
    from dist fst_st have "distinct (map fst st)" by simp
    with mem have look: "map_of st i = Some rec" by simp
    from True have ne: "filter (\<lambda>r. identity sch r = i) pre \<noteq> []"
      by (auto simp: set_ids filter_empty_conv)
    have gi: "g' i = map_option (Pair i) (fold_row c sch rec r)"
      using fold_partition_snoc [OF ne, of c sch r] rec
      by (simp add: g'_def i_def)
    have fst_g: "\<And>j y. j \<in> set ids \<Longrightarrow> g j = Some y \<Longrightarrow> fst y = j"
      by (auto simp: g_def)
    have upd: "those (map g' ids) = map_option (\<lambda>rec'. dict_set st i rec') (fold_row c sch rec r)"
      using dist True st other gi fst_g by (rule those_map_update)
    have fs: "first_seen (map (identity sch) (pre @ [r])) = ids"
      using True by (simp add: first_seen_snoc ids_def i_def set_first_seen)
    have kp: "keyed_partitions c sch (pre @ [r])
        = those (map g' (first_seen (map (identity sch) (pre @ [r]))))"
      by (simp only: keyed_partitions_def g'_def)
    have "keyed_partitions c sch (pre @ [r]) = those (map g' ids)"
      unfolding kp fs ..
    with upd look show ?thesis by (simp add: step_def Let_def flip: i_def)
  qed
qed

lemma keyed_partitions_fail:
  assumes "keyed_partitions c sch pre = None"
  shows "keyed_partitions c sch (pre @ rows) = None"
proof -
  from assms obtain i where i: "i \<in> set (first_seen (map (identity sch) pre))"
    and f: "fold_partition c sch (filter (\<lambda>r. identity sch r = i) pre) = None"
    by (auto simp: keyed_partitions_def those_map_None_iff)
  from i have ne: "filter (\<lambda>r. identity sch r = i) pre \<noteq> []"
    by (auto simp: set_first_seen filter_empty_conv)
  have "fold_partition c sch (filter (\<lambda>r. identity sch r = i) (pre @ rows)) = None"
    using fold_partition_append [OF ne, of c sch "filter (\<lambda>r. identity sch r = i) rows"] f
    by simp
  moreover from i have "i \<in> set (first_seen (map (identity sch) (pre @ rows)))"
    by (auto simp: set_first_seen)
  ultimately show ?thesis
    unfolding keyed_partitions_def by (intro those_map_None [of i]) simp_all
qed

lemma fold_rows_keyed_partitions:
  "keyed_partitions c sch pre = Some st \<Longrightarrow>
     fold_rows c sch st rows = keyed_partitions c sch (pre @ rows)"
proof (induction rows arbitrary: pre st)
  case Nil
  then show ?case by simp
next
  case (Cons r rows)
  note step = keyed_partitions_step [OF Cons.prems, of r]
  show ?case
  proof (cases "step c sch st r")
    case None
    with step have "keyed_partitions c sch (pre @ [r]) = None" by simp
    from keyed_partitions_fail [OF this, of rows] None show ?thesis by simp
  next
    case (Some st')
    with step have "keyed_partitions c sch (pre @ [r]) = Some st'" by simp
    from Cons.IH [OF this] Some show ?thesis by simp
  qed
qed

lemma map_records_partitions:
  "map_records c sch rows = those (map (fold_partition c sch) (partitions sch rows))"
proof -
  have "keyed_partitions c sch [] = Some []" by (simp add: keyed_partitions_def)
  from fold_rows_keyed_partitions [OF this, of rows]
  have "map_records c sch rows = map_option (map snd) (keyed_partitions c sch rows)"
    by (simp add: map_records_def)
  also have "\<dots> = those (map (\<lambda>i. fold_partition c sch (filter (\<lambda>r. identity sch r = i) rows))
                          (first_seen (map (identity sch) rows)))"
    unfolding keyed_partitions_def by (rule those_map_snd)
  also have "\<dots> = those (map (fold_partition c sch) (partitions sch rows))"
    by (simp add: partitions_def comp_def)
  finally show ?thesis .
qed

lemma fold_row_lists:
  "fold_row c sch rec r = Some rec' \<Longrightarrow>
     lists rec' = map (\<lambda>(f, xs). (f, xs @ list_elements r f)) (lists rec)
   \<and> sets rec' = map (\<lambda>(f, xs). (f, foldl set_insert xs (list_elements r f))) (sets rec)"
  by (auto simp: fold_row_def split: option.splits)

lemma fold_from_lists:
  "fold_from c sch rec rows = Some rec' \<Longrightarrow>
     lists rec' = map (\<lambda>(f, xs). (f, xs @ concat (map (\<lambda>r. list_elements r f) rows))) (lists rec)
   \<and> sets rec' = map (\<lambda>(f, xs). (f, foldl set_insert xs (concat (map (\<lambda>r. list_elements r f) rows))))
                   (sets rec)"
proof (induction rows arbitrary: rec)
  case Nil
  then show ?case by (simp add: case_prod_unfold)
next
  case (Cons r rows)
  from Cons.prems obtain rec1 where r1: "fold_row c sch rec r = Some rec1"
    and rest: "fold_from c sch rec1 rows = Some rec'"
    by (auto split: option.splits)
  from fold_row_lists [OF r1] Cons.IH [OF rest] show ?case
    by (simp add: case_prod_unfold comp_def)
qed

lemma fold_partition_lists:
  assumes "fold_partition c sch part = Some rec"
  shows "lists rec = map (\<lambda>f. (f, concat (map (\<lambda>r. list_elements r f) part))) (list_fields sch)"
    and "sets rec = map (\<lambda>f. (f, foldl set_insert [] (concat (map (\<lambda>r. list_elements r f) part))))
                      (set_fields sch)"
proof -
  from assms obtain r rs where part: "part = r # rs"
    and f: "fold_from c sch (init_record sch r) (r # rs) = Some rec"
    by (auto simp: fold_partition_def split: list.splits)
  from fold_from_lists [OF f]
  show "lists rec = map (\<lambda>f. (f, concat (map (\<lambda>r. list_elements r f) part))) (list_fields sch)"
    and "sets rec = map (\<lambda>f. (f, foldl set_insert [] (concat (map (\<lambda>r. list_elements r f) part))))
                      (set_fields sch)"
    by (simp_all add: init_record_def part comp_def)
qed

lemma fold_row_csv:
  assumes "fold_row c sch rec r = Some rec'"
  shows "list_all2 (csv_grows c [r]) (csv_lists rec) (csv_lists rec')"
proof -
  from assms have t: "those (map (\<lambda>(f, xs). map_option (\<lambda>ys. (f, xs @ ys)) (csv_elements c r f))
                   (csv_lists rec)) = Some (csv_lists rec')"
    by (auto simp: fold_row_def split: option.splits)
  have "those (map (\<lambda>(f, xs). map_option (\<lambda>ys. (f, xs @ ys)) (csv_elements c r f)) old) = Some new
        \<Longrightarrow> list_all2 (csv_grows c [r]) old new" for old new
  proof (induction old arbitrary: new)
    case Nil
    then show ?case by simp
  next
    case (Cons p old)
    obtain f xs where p: "p = (f, xs)" by (cases p)
    from Cons.prems p obtain ys new' where ys: "csv_elements c r f = Some ys"
      and rest: "those (map (\<lambda>(f, xs). map_option (\<lambda>ys. (f, xs @ ys)) (csv_elements c r f)) old)
                  = Some new'"
      and new: "new = (f, xs @ ys) # new'"
      by (auto split: option.splits)
    from Cons.IH [OF rest] ys show ?case
      by (simp add: new p csv_grows_def)
  qed
  from this [OF t] show ?thesis .
qed

lemma csv_grows_trans:
  assumes "csv_grows c [r] a b" "csv_grows c rows b d"
  shows "csv_grows c (r # rows) a d"
proof -
  from assms(1) obtain ys where ys: "csv_elements c r (fst a) = Some ys"
    and b: "fst b = fst a" "snd b = snd a @ ys"
    by (auto simp: csv_grows_def split: option.splits)
  from assms(2) b obtain yss where
    yss: "those (map (\<lambda>r. csv_elements c r (fst a)) rows) = Some yss"
    and d: "fst d = fst a" "snd d = (snd a @ ys) @ concat yss"
    by (auto simp: csv_grows_def)
  from ys yss d show ?thesis by (simp add: csv_grows_def)
qed

lemma fold_from_csv:
  "fold_from c sch rec rows = Some rec' \<Longrightarrow>
     list_all2 (csv_grows c rows) (csv_lists rec) (csv_lists rec')"
proof (induction rows arbitrary: rec)
  case Nil
  then show ?case by (simp add: csv_grows_def list_all2_same prod_eq_iff)
next
  case (Cons r rows)
  from Cons.prems obtain rec1 where r1: "fold_row c sch rec r = Some rec1"
    and rest: "fold_from c sch rec1 rows = Some rec'"
    by (auto split: option.splits)
  show ?case
    by (rule list_all2_trans [OF _ fold_row_csv [OF r1] Cons.IH [OF rest]])
       (rule csv_grows_trans)
qed

lemma fold_partition_csv:
  assumes "fold_partition c sch part = Some rec"
  shows "list_all2 (\<lambda>f new. fst new = f \<and>
            map_option concat (those (map (\<lambda>r. csv_elements c r f) part)) = Some (snd new))
           (csv_list_fields sch) (csv_lists rec)"
proof -
  from assms obtain r rs where part: "part = r # rs"
    and f: "fold_from c sch (init_record sch r) (r # rs) = Some rec"
    by (auto simp: fold_partition_def split: list.splits)
  from fold_from_csv [OF f]
  have "list_all2 (csv_grows c part) (map (\<lambda>f. (f, [])) (csv_list_fields sch)) (csv_lists rec)"
    by (simp add: init_record_def part)
  then show ?thesis
    by (simp add: list_all2_map1 csv_grows_def)
qed

lemma set_insert_dedup:
  "distinct acc \<Longrightarrow>
     distinct (foldl set_insert acc vs) \<and> set (foldl set_insert acc vs) = set acc \<union> set vs"
  by (induction vs arbitrary: acc) (auto simp: set_insert_def)

lemma partitions_length: "length (partitions sch rows) = card (identity sch ` set rows)"
proof -
  have "length (first_seen (map (identity sch) rows))
          = card (set (first_seen (map (identity sch) rows)))"
    by (rule distinct_card [symmetric]) (rule distinct_first_seen)
  then show ?thesis by (simp add: partitions_def set_first_seen)
qed

section \<open>The writes of the assembler go to new objects\<close>





















section \<open>The assembler on a store returns what the assembler on values returns\<close>





lemma imm_Nil: "imm [] = []"
  by (simp add: imm_def)












subsection \<open>Reading the store after a write\<close>

lemma frame_nth: "frame n h h' \<Longrightarrow> n \<le> length h \<Longrightarrow> a < n \<Longrightarrow> h' ! a = h ! a"
proof -
  assume f: "frame n h h'" and n: "n \<le> length h" and a: "a < n"
  from f have t: "take n h' = take n h" by (simp add: frame_def)
  have "h' ! a = take n h' ! a" using a by simp
  also have "\<dots> = take n h ! a" by (simp add: t)
  also have "\<dots> = h ! a" using a by simp
  finally show ?thesis .
qed








lemma frame_self: "frame (length h) h h' \<Longrightarrow> a < length h \<Longrightarrow> h' ! a = h ! a"
  by (rule frame_nth [of "length h"]) simp_all








lemma strs_at_append_other: "a \<noteq> b \<Longrightarrow> strs_at (st_append a s h) b = strs_at h b"
  by (simp add: st_append_def strs_at_def)



lemma dict_at_alloc: "dict_at (h @ [ODict d]) (length h) = d"
  by (simp add: dict_at_def)

lemma strs_at_alloc: "strs_at (h @ [OStrs l]) (length h) = l"
  by (simp add: strs_at_def)


lemma strs_at_snoc: "a < length h \<Longrightarrow> strs_at (h @ [ob]) a = strs_at h a"
  by (simp add: strs_at_def nth_append)

lemma list_at_snoc: "a < length h \<Longrightarrow> list_at (h @ [ob]) a = list_at h a"
  by (simp add: list_at_def nth_append)


subsection \<open>The inner list\<close>


























section \<open>Validation of the placeholder keys\<close>

text \<open>
  C1. A query that references two keys missing from \<open>template_params\<close> should fail
  with one error whose message names both. The loop of
  \<^verbatim>\<open>__validate_keys_clean_query\<close> empties \<^verbatim>\<open>missing_keys\<close> in every round and raises
  inside the round, so the error comes at the first missing key and names that key only:
  for \<^verbatim>\<open>{in__a}\<close> and \<^verbatim>\<open>{in__b}\<close> with no template values the message is
  \<^verbatim>\<open>Missing template keys ['in__a']\<close>, and \<^verbatim>\<open>in__b\<close> is not in it.
\<close>

theorem C1_first_missing_key_only:
  "get_query_data (Data two_missing_keys) =
     Inl (ListTemplateException
            (''Missing template keys ['' @ [CHR 0x27] @ ''in__a'' @ [CHR 0x27] @ '']''))
   \<and> \<not> contains ''in__b''
         (''Missing template keys ['' @ [CHR 0x27] @ ''in__a'' @ [CHR 0x27] @ '']'')"
  by code_simp

theorem C1_first_missing_key_only_witness:
  "case get_query_data (Data two_missing_keys) of
     Inl (ListTemplateException m) \<Rightarrow> contains ''in__a'' m \<and> \<not> contains ''in__b'' m
   | _ \<Rightarrow> False"
  using C1_first_missing_key_only by code_simp

text \<open>
  C5. A \<^verbatim>\<open>values\<close> placeholder whose key is present with an empty value should be
  refused by validation like an absent key. The \<^verbatim>\<open>elif\<close> of the validation compares
  the whole key with the word \<^verbatim>\<open>values\<close>, and a key always holds \<^verbatim>\<open>__\<close>, so the
  branch is never taken: validation accepts \<^verbatim>\<open>{values__v}\<close> with the value \<^verbatim>\<open>[]\<close>
  and returns the cleaned query and the key. The error comes later, from the
  \<^verbatim>\<open>values\<close> handler, with the handler's message and not the list of missing keys.
\<close>

theorem C5_empty_values_pass_validation:
  "validate_keys_clean_query (query empty_values_example) (template_params empty_values_example)
     = Inr (''INSERT INTO t{values__v}'', [''values__v''])
   \<and> get_query_data (Data empty_values_example)
     = Inl (ListTemplateException ''Must have values for v template'')"
  by code_simp

theorem C5_empty_values_pass_validation_witness:
  "case get_query_data (Data empty_values_example) of
     Inl (ListTemplateException m) \<Rightarrow> \<not> contains ''Missing template keys'' m
   | _ \<Rightarrow> False"
  using C5_empty_values_pass_validation by code_simp

section \<open>The handlers on an empty value\<close>

text \<open>
  C6. For every name and every empty \<open>values\<close> argument (any falsy value: the empty
  list, the empty tuple, the empty string, \<^verbatim>\<open>None\<close>), whatever the legacy key: the
  \<^verbatim>\<open>in\<close> handler returns the fragment \<^verbatim>\<open>1 <> 1\<close> with no bindings (\<^verbatim>\<open>None\<close>), the
  \<^verbatim>\<open>not_in\<close> handler returns \<^verbatim>\<open>1 = 1\<close> with no bindings, and the \<^verbatim>\<open>values\<close> handler
  raises \<^verbatim>\<open>ListTemplateException\<close>. The handlers are called directly here, with no
  validation before them.
\<close>

theorem C6_handlers_on_empty_values:
  "\<not> truthy values \<Longrightarrow>
     in_column name values legacy_key = Inr (''1 <> 1'', None) \<and>
     not_in_column name values legacy_key = Inr (''1 = 1'', None) \<and>
     values_template name values legacy_key =
       Inl (ListTemplateException (''Must have values for '' @ name @ '' template''))"
  by (simp add: in_column_def not_in_column_def values_template_def)

theorem C6_handlers_on_empty_values_witness:
  "in_column ''col'' (PList []) None = Inr (''1 <> 1'', None) \<and>
   not_in_column ''col'' (PList []) None = Inr (''1 = 1'', None) \<and>
   values_template ''col'' (PList []) None =
     Inl (ListTemplateException ''Must have values for col template'')"
  using C6_handlers_on_empty_values [of "PList []" "''col''" None] by simp

section \<open>Assembly of one query\<close>

text \<open>
  The claim C2 as it is written fails on the code: the assembler passes the whole key
  \<^verbatim>\<open>in__x\<close> as \<^verbatim>\<open>legacy_key\<close>, and the handler names the bindings after it. The SQL
  text does not hold \<^verbatim>\<open>x IN ( :x_0, :x_1 )\<close> and the mapping has no key \<^verbatim>\<open>x_0\<close>.
\<close>

theorem C2_counterexample:
  "get_query_data (Data in_x_example) =
     Inr (''SELECT * FROM t WHERE x x IN ( :in__x_0, :in__x_1 ) '',
          [(''in__x_0'', PInt 1), (''in__x_1'', PInt 2)])
   \<and> \<not> contains ''x IN ( :x_0, :x_1 )''
         ''SELECT * FROM t WHERE x x IN ( :in__x_0, :in__x_1 ) ''
   \<and> dict_get [(''in__x_0'', PInt 1), (''in__x_1'', PInt 2)] ''x_0'' = None"
  by code_simp

text \<open>
  C2, amended. For the query \<^verbatim>\<open>SELECT * FROM t WHERE x {in__x}\<close> with the template
  value \<^verbatim>\<open>{in__x: [1, 2]}\<close>, \<^verbatim>\<open>get_query_data\<close> returns an SQL text that contains the
  exact fragment \<^verbatim>\<open>x IN ( :in__x_0, :in__x_1 )\<close> and the parameter mapping
  \<^verbatim>\<open>{in__x_0: 1, in__x_1: 2}\<close>: the binding names carry the whole placeholder key.
\<close>

theorem C2_in_x_assembly:
  "\<exists>sql. get_query_data (Data in_x_example) =
           Inr (sql, [(''in__x_0'', PInt 1), (''in__x_1'', PInt 2)])
         \<and> contains ''x IN ( :in__x_0, :in__x_1 )'' sql"
proof -
  have "get_query_data (Data in_x_example) =
          Inr (''SELECT * FROM t WHERE x x IN ( :in__x_0, :in__x_1 ) '',
               [(''in__x_0'', PInt 1), (''in__x_1'', PInt 2)])"
    by code_simp
  moreover have "contains ''x IN ( :in__x_0, :in__x_1 )''
                   ''SELECT * FROM t WHERE x x IN ( :in__x_0, :in__x_1 ) ''"
    by code_simp
  ultimately show ?thesis by blast
qed

theorem C2_in_x_assembly_witness:
  "case get_query_data (Data in_x_example) of
     Inr (sql, params) \<Rightarrow>
       dict_get params ''in__x_0'' = Some (PInt 1) \<and> dict_get params ''in__x_1'' = Some (PInt 2)
   | Inl e \<Rightarrow> False"
  using C2_in_x_assembly by (auto simp: dict_get_def)

text \<open>
  The claim C3 as it is written fails on the code: \<^verbatim>\<open>params\<close> takes \<^verbatim>\<open>query_params\<close>
  first and the bindings of the templates after, so a generated name overwrites a
  directly supplied parameter of the same name. Here \<^verbatim>\<open>query_params\<close> gives
  \<^verbatim>\<open>in__x_0\<close> the value 99 and the mapping returned gives it the value 1.
\<close>

theorem C3_counterexample:
  "get_query_data (Data shared_name_example) =
     Inr (''SELECT * FROM t WHERE x x IN ( :in__x_0, :in__x_1 ) '',
          [(''in__x_0'', PInt 1), (''y'', PInt 7), (''in__x_1'', PInt 2)])
   \<and> dict_get (the (query_params shared_name_example)) ''in__x_0'' = Some (PInt 99)
   \<and> dict_get [(''in__x_0'', PInt 1), (''y'', PInt 7), (''in__x_1'', PInt 2)] ''in__x_0''
       \<noteq> Some (PInt 99)"
  by code_simp

text \<open>
  C3, amended. For every \<^verbatim>\<open>QueryData\<close> with a \<^verbatim>\<open>query_params\<close> mapping on which
  \<^verbatim>\<open>get_query_data\<close> succeeds, the same call without \<^verbatim>\<open>query_params\<close> succeeds with
  the same SQL text, and the mapping returned is \<^verbatim>\<open>query_params\<close> overridden by the
  template-generated bindings: a name that the templates generate carries the generated
  value, also when \<^verbatim>\<open>query_params\<close> has that name, and every other name carries the
  value \<^verbatim>\<open>query_params\<close> gives it.
\<close>

theorem C3_template_bindings_override:
  assumes run: "get_query_data (Data \<lparr>query = q, query_params = Some qp, template_params = tp\<rparr>)
                  = Inr (sql, params)"
    and dist: "distinct (map fst qp)"
  shows "\<exists>tparams.
           get_query_data (Data \<lparr>query = q, query_params = None, template_params = tp\<rparr>)
             = Inr (sql, tparams)
           \<and> (\<forall>n. dict_get params n =
                 (case dict_get tparams n of Some v \<Rightarrow> Some v | None \<Rightarrow> dict_get qp n))"
proof -
  define init where "init = (if dict_truthy (Some qp) then dict_update [] qp else [])"
  from run obtain q1 keys where
    val: "validate_keys_clean_query q tp = Inr (q1, keys)" and
    loop: "template_loop tp keys (q1, init) = Inr (sql, params)"
    by (auto simp: get_query_data_def init_def split: sum.splits cong: if_cong)
  have init: "map_of init = map_of qp"
    using dist by (simp add: init_def dict_truthy_def map_of_dict_update map_of_rev_distinct)
  from template_loop_params [OF loop] obtain m where
    m: "\<And>p. \<exists>p'. template_loop tp keys (q1, p) = Inr (sql, p') \<and> map_of p' = map_of p ++ m"
    by blast
  from m [of "[]"] obtain tparams where
    t: "template_loop tp keys (q1, []) = Inr (sql, tparams)" and tm: "map_of tparams = m"
    by auto
  from m [of init] loop have pm: "map_of params = map_of qp ++ m"
    by (auto simp: init)
  have "get_query_data (Data \<lparr>query = q, query_params = None, template_params = tp\<rparr>)
          = Inr (sql, tparams)"
    by (simp add: get_query_data_def val t dict_truthy_def)
  moreover have "\<forall>n. dict_get params n =
                 (case dict_get tparams n of Some v \<Rightarrow> Some v | None \<Rightarrow> dict_get qp n)"
    by (auto simp: dict_get_def pm tm map_add_def split: option.splits)
  ultimately show ?thesis by blast
qed

theorem C3_template_bindings_override_witness:
  "\<exists>tparams.
      get_query_data (Data (shared_name_example\<lparr>query_params := None\<rparr>))
        = Inr (''SELECT * FROM t WHERE x x IN ( :in__x_0, :in__x_1 ) '', tparams)
      \<and> dict_get tparams ''in__x_0'' = Some (PInt 1)"
proof -
  have run: "get_query_data (Data \<lparr>query = ''SELECT * FROM t WHERE x {in__x}'',
      query_params = Some [(''in__x_0'', PInt 99), (''y'', PInt 7)],
      template_params = Some [(''in__x'', PList [PInt 1, PInt 2])]\<rparr>) =
     Inr (''SELECT * FROM t WHERE x x IN ( :in__x_0, :in__x_1 ) '',
          [(''in__x_0'', PInt 1), (''y'', PInt 7), (''in__x_1'', PInt 2)])"
    by code_simp
  have dist: "distinct (map fst [(''in__x_0'', PInt 99), (''y'', PInt (7::int))])" by simp
  from C3_template_bindings_override [OF run dist] obtain tparams where
    a: "get_query_data (Data \<lparr>query = ''SELECT * FROM t WHERE x {in__x}'',
      query_params = None,
      template_params = Some [(''in__x'', PList [PInt 1, PInt 2])]\<rparr>) =
        Inr (''SELECT * FROM t WHERE x x IN ( :in__x_0, :in__x_1 ) '', tparams)" and
    b: "\<forall>n. dict_get [(''in__x_0'', PInt 1), (''y'', PInt 7), (''in__x_1'', PInt 2)] n =
                 (case dict_get tparams n of Some v \<Rightarrow> Some v
                  | None \<Rightarrow> dict_get [(''in__x_0'', PInt 99), (''y'', PInt 7)] n)"
    by blast
  from b have "dict_get tparams ''in__x_0'' = Some (PInt 1)"
    by (auto simp: dict_get_def split: option.splits dest: spec [of _ "''in__x_0''"])
  with a show ?thesis by (auto simp: shared_name_example_def)
qed

section \<open>A single scalar as the value of a template\<close>

text \<open>
  The claim C8 as it is written fails on the code: \<^verbatim>\<open>_parameterize_list\<close> wraps a
  value only when it is a \<^verbatim>\<open>str\<close>. An integer is passed to \<^verbatim>\<open>enumerate\<close> as it is,
  which raises \<^verbatim>\<open>TypeError\<close>; so do the \<^verbatim>\<open>in\<close> and \<^verbatim>\<open>not_in\<close> handlers on it.
\<close>

theorem C8_counterexample:
  "parameterize_list ''in__x'' (PInt 5) = Inl (TypeError ''object is not iterable'')
   \<and> in_column ''x'' (PInt 5) (Some ''in__x'') = Inl (TypeError ''object is not iterable'')
   \<and> not_in_column ''x'' (PInt 5) (Some ''in__x'') = Inl (TypeError ''object is not iterable'')"
  by code_simp

text \<open>
  C8, amended. For every single string \<open>s\<close> and every base key, the parameterization
  step treats \<open>s\<close> as the one-element tuple \<^verbatim>\<open>(s,)\<close> and produces exactly one
  binding, of \<open>s\<close>, in a one-element parenthesized fragment; for a non-empty \<open>s\<close> the
  \<^verbatim>\<open>in\<close> and \<^verbatim>\<open>not_in\<close> handlers return that fragment after the name and
  \<^verbatim>\<open>IN\<close> or \<^verbatim>\<open>NOT IN\<close>, with that one binding. (Strings are the only scalars the
  signature \<^verbatim>\<open>Union[str, Iterable[str]]\<close> admits.)
\<close>

theorem C8_single_string:
  "parameterize_list key (PStr s) = parameterize_list key (PTuple [PStr s])
   \<and> parameterize_list key (PStr s) =
       Inr (''( :'' @ string_binding_name key @ '' )'', [(string_binding_name key, PStr s)])
   \<and> (s \<noteq> [] \<longrightarrow>
        in_column name (PStr s) legacy_key =
          Inr (name @ '' IN ( :'' @ string_binding_name (key_name_of name legacy_key) @ '' )'',
               Some [(string_binding_name (key_name_of name legacy_key), PStr s)])
      \<and> not_in_column name (PStr s) legacy_key =
          Inr (name @ '' NOT IN ( :'' @ string_binding_name (key_name_of name legacy_key) @ '' )'',
               Some [(string_binding_name (key_name_of name legacy_key), PStr s)]))"
proof (intro conjI impI)
  show "parameterize_list key (PStr s) = parameterize_list key (PTuple [PStr s])"
    by (simp add: parameterize_list_def)
  show "parameterize_list key (PStr s) =
       Inr (''( :'' @ string_binding_name key @ '' )'', [(string_binding_name key, PStr s)])"
    by (rule parameterize_list_str)
next
  assume "s \<noteq> []"
  then show "in_column name (PStr s) legacy_key =
          Inr (name @ '' IN ( :'' @ string_binding_name (key_name_of name legacy_key) @ '' )'',
               Some [(string_binding_name (key_name_of name legacy_key), PStr s)])"
    by (simp add: in_column_def parameterize_list_str)
next
  assume "s \<noteq> []"
  then show "not_in_column name (PStr s) legacy_key =
          Inr (name @ '' NOT IN ( :'' @ string_binding_name (key_name_of name legacy_key) @ '' )'',
               Some [(string_binding_name (key_name_of name legacy_key), PStr s)])"
    by (simp add: not_in_column_def parameterize_list_str)
qed

theorem C8_single_string_witness:
  "parameterize_list ''in__t.c'' (PStr ''bob'') = Inr (''( :in__t_c_0 )'', [(''in__t_c_0'', PStr ''bob'')])
   \<and> in_column ''t.c'' (PStr ''bob'') (Some ''in__t.c'')
       = Inr (''t.c IN ( :in__t_c_0 )'', Some [(''in__t_c_0'', PStr ''bob'')])
   \<and> not_in_column ''t.c'' (PStr ''bob'') (Some ''in__t.c'')
       = Inr (''t.c NOT IN ( :in__t_c_0 )'', Some [(''in__t_c_0'', PStr ''bob'')])"
proof -
  have n: "string_binding_name ''in__t.c'' = ''in__t_c_0''" by code_simp
  have k: "key_name_of ''t.c'' (Some ''in__t.c'') = ''in__t.c''" by code_simp
  have ne: "''bob'' \<noteq> []" by simp
  note inst = C8_single_string [of "''in__t.c''" "''bob''" "''t.c''" "Some ''in__t.c''"]
  from inst have a: "parameterize_list ''in__t.c'' (PStr ''bob'') =
      Inr (''( :'' @ string_binding_name ''in__t.c'' @ '' )'',
           [(string_binding_name ''in__t.c'', PStr ''bob'')])"
    by blast
  from inst ne have b: "in_column ''t.c'' (PStr ''bob'') (Some ''in__t.c'') =
      Inr (''t.c'' @ '' IN ( :'' @ string_binding_name (key_name_of ''t.c'' (Some ''in__t.c''))
             @ '' )'',
           Some [(string_binding_name (key_name_of ''t.c'' (Some ''in__t.c'')), PStr ''bob'')])"
    by blast
  from inst ne have c: "not_in_column ''t.c'' (PStr ''bob'') (Some ''in__t.c'') =
      Inr (''t.c'' @ '' NOT IN ( :'' @ string_binding_name (key_name_of ''t.c'' (Some ''in__t.c''))
             @ '' )'',
           Some [(string_binding_name (key_name_of ''t.c'' (Some ''in__t.c'')), PStr ''bob'')])"
    by blast
  show ?thesis
    unfolding a b c by (simp add: n k)
qed

section \<open>The binding names of one query\<close>

text \<open>
  The claim C4 as it is written fails on the code: the names are built from the key with
  its dots replaced by underscores, so the keys \<^verbatim>\<open>in__a.b\<close> and \<^verbatim>\<open>in__a_b\<close> both
  give the name \<^verbatim>\<open>in__a_b_0\<close> to their element 0. The call succeeds, and of the two
  positions the mapping returned keeps one entry, with the value written last.
\<close>

theorem C4_counterexample:
  "get_query_data (Data dot_collision_example) =
     Inr (''SELECT * FROM a WHERE a.b IN ( :in__a_b_0 ) AND a_b IN ( :in__a_b_0 ) '',
          [(''in__a_b_0'', PInt 2)])
   \<and> in_column ''a.b'' (PList [PInt 1]) (Some ''in__a.b'')
       = Inr (''a.b IN ( :in__a_b_0 )'', Some [(''in__a_b_0'', PInt 1)])
   \<and> in_column ''a_b'' (PList [PInt 2]) (Some ''in__a_b'')
       = Inr (''a_b IN ( :in__a_b_0 )'', Some [(''in__a_b_0'', PInt 2)])
   \<and> all_bindings dot_collision_example = [(''in__a_b_0'', PInt 1), (''in__a_b_0'', PInt 2)]
   \<and> \<not> distinct (map fst (all_bindings dot_collision_example))"
  by code_simp


text \<open>
  C4, amended. For every \<^verbatim>\<open>QueryData\<close> on which \<^verbatim>\<open>get_query_data\<close> succeeds and
  whose placeholder keys stay different from one another when their dots are replaced by
  underscores, the binding names generated over all the placeholders of the query are
  pairwise distinct: no two positions (placeholder key and element index, and tuple
  position where the element is expanded) have the same name. Without
  \<^verbatim>\<open>query_params\<close> the mapping returned then holds exactly one entry for every
  position.
\<close>

theorem C4_names_distinct:
  assumes ok: "get_query_data (Data d) = Inr (sql, params)"
    and inj: "inj_on (str_replace ''.'' ''_'') (set (placeholder_keys (query d)))"
  shows "distinct (map fst (all_bindings d))
       \<and> (query_params d = None \<longrightarrow>
            set params = set (all_bindings d) \<and> length params = length (all_bindings d))"
proof (intro conjI impI)
  show dist: "distinct (map fst (all_bindings d))" using inj by (rule all_bindings_distinct)
  assume none: "query_params d = None"
  from ok none obtain q1 keys where
    val: "validate_keys_clean_query (query d) (template_params d) = Inr (q1, keys)" and
    loop: "template_loop (template_params d) keys (q1, []) = Inr (sql, params)"
    by (auto simp: get_query_data_def dict_truthy_def split: sum.splits)
  from validate_keys(1) [OF val] have keys: "keys = placeholder_keys (query d)"
    by (simp add: placeholder_keys_def)
  define E where "E = concat (map (key_bindings (template_params d)) keys)"
  from template_loop_bindings [OF loop] have p: "params = dict_update [] E"
    by (simp add: E_def)
  have sE: "set E = set (all_bindings d)"
    by (auto simp: E_def all_bindings_def keys)
  have "\<And>n v v'. (n, v) \<in> set E \<Longrightarrow> (n, v') \<in> set E \<Longrightarrow> v = v'"
    unfolding sE using dist by (rule eq_key_imp_eq_value)
  then have "set (dict_update [] E) = set E" by (rule set_dict_update_functional)
  with p sE show s: "set params = set (all_bindings d)" by simp
  have "distinct (map fst params)" unfolding p by (rule distinct_dict_update) simp
  then have "distinct params" by (rule distinct_map [THEN iffD1, THEN conjunct1])
  moreover from dist have "distinct (all_bindings d)"
    by (rule distinct_map [THEN iffD1, THEN conjunct1])
  ultimately show "length params = length (all_bindings d)"
    using s by (metis distinct_card)
qed

theorem C4_names_distinct_witness:
  "\<exists>sql params. get_query_data (Data two_keys_example) = Inr (sql, params)
      \<and> distinct (map fst (all_bindings two_keys_example))
      \<and> set params = set (all_bindings two_keys_example)
      \<and> length params = 6 \<and> length (all_bindings two_keys_example) = 6"
proof -
  have run: "get_query_data (Data two_keys_example) =
    Inr (''INSERT INTO t VALUES ( :values__t_rows_0_0, :values__t_rows_0_1 ), ( :values__t_rows_1_0, :values__t_rows_1_1 ) WHERE a t.a IN ( :in__t_a_0, :in__t_a_1 ) '',
      [(''values__t_rows_0_0'', PInt 1), (''values__t_rows_0_1'', PStr ''x''),
       (''values__t_rows_1_0'', PInt 2), (''values__t_rows_1_1'', PStr ''y''),
       (''in__t_a_0'', PInt 3), (''in__t_a_1'', PInt 4)])"
    by code_simp
  have pk: "placeholder_keys (query two_keys_example) = [''values__t.rows'', ''in__t.a'']"
    by code_simp
  have inj: "inj_on (str_replace ''.'' ''_'') (set (placeholder_keys (query two_keys_example)))"
    unfolding pk by (simp add: str_replace_dot canon_def)
  have none: "query_params two_keys_example = None" by (simp add: two_keys_example_def)
  from C4_names_distinct [OF run inj] none show ?thesis
    unfolding run by auto
qed

section \<open>A placeholder that occurs more than once\<close>




section \<open>The combining mapper\<close>

text \<open>
  C7. For every sequence of raw rows (and every schema and coercion), the combining mapper
  returns what folding the partitions gives: the rows are partitioned by the identity
  fields, every partition is folded on its own, and the records come in the order in
  which the identities are first seen, one for each distinct identity; the call fails
  when the fold of a partition fails. In the record of a partition every list field holds
  the values of the rows in row order, every CSV-list field the coerced tokens of the
  rows in row order, duplicates kept in both, and every set field holds each value of
  the rows once. The witness evaluates the two tests: the two rows of one identity with
  the same CSV content give the doubled lists.
\<close>

theorem C7_combining_mapper:
  "map_records coerce sch rows = those (map (fold_partition coerce sch) (partitions sch rows))
   \<and> length (partitions sch rows) = card (identity sch ` set rows)
   \<and> (\<forall>part rec. fold_partition coerce sch part = Some rec \<longrightarrow>
        lists rec = map (\<lambda>f. (f, concat (map (\<lambda>r. list_elements r f) part))) (list_fields sch)
      \<and> list_all2 (\<lambda>f new. fst new = f \<and>
            map_option concat (those (map (\<lambda>r. csv_elements coerce r f) part)) = Some (snd new))
           (csv_list_fields sch) (csv_lists rec)
      \<and> sets rec = map (\<lambda>f. (f, foldl set_insert [] (concat (map (\<lambda>r. list_elements r f) part))))
                      (set_fields sch))
   \<and> (\<forall>vs. distinct (foldl set_insert [] vs) \<and> set (foldl set_insert [] vs) = set vs)"
proof (intro conjI allI impI)
  show "map_records coerce sch rows = those (map (fold_partition coerce sch) (partitions sch rows))"
    by (rule map_records_partitions)
  show "length (partitions sch rows) = card (identity sch ` set rows)"
    by (rule partitions_length)
next
  fix part rec assume a: "fold_partition coerce sch part = Some rec"
  show "lists rec = map (\<lambda>f. (f, concat (map (\<lambda>r. list_elements r f) part))) (list_fields sch)"
    using a by (rule fold_partition_lists(1))
  show "list_all2 (\<lambda>f new. fst new = f \<and>
            map_option concat (those (map (\<lambda>r. csv_elements coerce r f) part)) = Some (snd new))
           (csv_list_fields sch) (csv_lists rec)"
    using a by (rule fold_partition_csv)
  show "sets rec = map (\<lambda>f. (f, foldl set_insert [] (concat (map (\<lambda>r. list_elements r f) part))))
                      (set_fields sch)"
    using a by (rule fold_partition_lists(2))
next
  fix vs :: "pyval list"
  show "distinct (foldl set_insert [] vs)" using set_insert_dedup [of "[]" vs] by simp
  show "set (foldl set_insert [] vs) = set vs" using set_insert_dedup [of "[]" vs] by simp
qed

theorem C7_combining_mapper_witness:
  "map_records example_coerce csv_schema csv_duplicate_rows =
     Some [\<lparr>scalars = [(''id'', PInt 1)], lists = [],
            csv_lists =
              [(''list1'', [PStr ''a'', PStr ''b'', PStr ''c'', PStr ''d'',
                            PStr ''a'', PStr ''b'', PStr ''c'', PStr ''d'']),
               (''list2'', [PInt 1, PInt 2, PInt 3, PInt 4, PInt 1, PInt 2, PInt 3, PInt 4])],
            sets = [], dicts = []\<rparr>]
   \<and> map_records example_coerce combining_schema combining_rows =
     Some [\<lparr>scalars = [(''id'', PInt 1)],
            lists = [(''list1'', [PStr ''val1'', PStr ''val3''])], csv_lists = [],
            sets = [(''set1'', [PStr ''val2'', PStr ''val4''])],
            dicts = [(''dict1'', [(PStr ''k1'', PStr ''v1''), (PStr ''k2'', PStr ''v2'')]),
                     (''dict2'', [(PStr ''k3'', PInt 3), (PStr ''k4'', PInt 4)])]\<rparr>,
           \<lparr>scalars = [(''id'', PInt 2)], lists = [(''list1'', [PStr ''val1''])],
            csv_lists = [], sets = [(''set1'', [])],
            dicts = [(''dict1'', []), (''dict2'', [])]\<rparr>]
   \<and> (\<exists>rec. fold_partition example_coerce combining_schema
               [combining_rows ! 0, combining_rows ! 2] = Some rec
            \<and> lists rec = [(''list1'', [PStr ''val1'', PStr ''val3''])])"
proof -
  have e1: "those (map (fold_partition example_coerce csv_schema)
                     (partitions csv_schema csv_duplicate_rows)) =
     Some [\<lparr>scalars = [(''id'', PInt 1)], lists = [],
            csv_lists =
              [(''list1'', [PStr ''a'', PStr ''b'', PStr ''c'', PStr ''d'',
                            PStr ''a'', PStr ''b'', PStr ''c'', PStr ''d'']),
               (''list2'', [PInt 1, PInt 2, PInt 3, PInt 4, PInt 1, PInt 2, PInt 3, PInt 4])],
            sets = [], dicts = []\<rparr>]"
    by code_simp
  have e2: "those (map (fold_partition example_coerce combining_schema)
                     (partitions combining_schema combining_rows)) =
     Some [\<lparr>scalars = [(''id'', PInt 1)],
            lists = [(''list1'', [PStr ''val1'', PStr ''val3''])], csv_lists = [],
            sets = [(''set1'', [PStr ''val2'', PStr ''val4''])],
            dicts = [(''dict1'', [(PStr ''k1'', PStr ''v1''), (PStr ''k2'', PStr ''v2'')]),
                     (''dict2'', [(PStr ''k3'', PInt 3), (PStr ''k4'', PInt 4)])]\<rparr>,
           \<lparr>scalars = [(''id'', PInt 2)], lists = [(''list1'', [PStr ''val1''])],
            csv_lists = [], sets = [(''set1'', [])],
            dicts = [(''dict1'', []), (''dict2'', [])]\<rparr>]"
    by code_simp
  define rec where "rec = \<lparr>scalars = [(''id'', PInt 1)],
            lists = [(''list1'', [PStr ''val1'', PStr ''val3''])], csv_lists = [],
            sets = [(''set1'', [PStr ''val2'', PStr ''val4''])],
            dicts = [(''dict1'', [(PStr ''k1'', PStr ''v1''), (PStr ''k2'', PStr ''v2'')]),
                     (''dict2'', [(PStr ''k3'', PInt 3), (PStr ''k4'', PInt 4)])]\<rparr>"
  have rec: "fold_partition example_coerce combining_schema
               [combining_rows ! 0, combining_rows ! 2] = Some rec"
    unfolding rec_def by code_simp
  have c: "map (\<lambda>f. (f, concat (map (\<lambda>r. list_elements r f)
                 [combining_rows ! 0, combining_rows ! 2]))) (list_fields combining_schema)
           = [(''list1'', [PStr ''val1'', PStr ''val3''])]"
    by code_simp
  from C7_combining_mapper [of example_coerce csv_schema csv_duplicate_rows] e1
  have a1: "map_records example_coerce csv_schema csv_duplicate_rows =
     Some [\<lparr>scalars = [(''id'', PInt 1)], lists = [],
            csv_lists =
              [(''list1'', [PStr ''a'', PStr ''b'', PStr ''c'', PStr ''d'',
                            PStr ''a'', PStr ''b'', PStr ''c'', PStr ''d'']),
               (''list2'', [PInt 1, PInt 2, PInt 3, PInt 4, PInt 1, PInt 2, PInt 3, PInt 4])],
            sets = [], dicts = []\<rparr>]"
    by metis
  from C7_combining_mapper [of example_coerce combining_schema combining_rows] e2
  have a2: "map_records example_coerce combining_schema combining_rows =
     Some [\<lparr>scalars = [(''id'', PInt 1)],
            lists = [(''list1'', [PStr ''val1'', PStr ''val3''])], csv_lists = [],
            sets = [(''set1'', [PStr ''val2'', PStr ''val4''])],
            dicts = [(''dict1'', [(PStr ''k1'', PStr ''v1''), (PStr ''k2'', PStr ''v2'')]),
                     (''dict2'', [(PStr ''k3'', PInt 3), (PStr ''k4'', PInt 4)])]\<rparr>,
           \<lparr>scalars = [(''id'', PInt 2)], lists = [(''list1'', [PStr ''val1''])],
            csv_lists = [], sets = [(''set1'', [])],
            dicts = [(''dict1'', []), (''dict2'', [])]\<rparr>]"
    by metis
  from C7_combining_mapper [of example_coerce combining_schema combining_rows] rec
  have "lists rec = map (\<lambda>f. (f, concat (map (\<lambda>r. list_elements r f)
                 [combining_rows ! 0, combining_rows ! 2]))) (list_fields combining_schema)"
    by blast
  with c rec have a3: "\<exists>rec. fold_partition example_coerce combining_schema
               [combining_rows ! 0, combining_rows ! 2] = Some rec
            \<and> lists rec = [(''list1'', [PStr ''val1'', PStr ''val3''])]"
    by simp
  from a1 a2 a3 show ?thesis by blast
qed

section \<open>The input of the assembler is left as it was\<close>



end
